theory Spec2Isabelle
  imports Main "HOL-Library.Multiset"
begin

section \<open>Data model (types.ts)\<close>

text \<open>
  Strings are lists of bytes (UTF-8). An optional field (\<^verbatim>\<open>description?\<close>,
  \<^verbatim>\<open>avatar?\<close>) is an \<open>option\<close>, \<open>None\<close> standing for an absent or
  \<^verbatim>\<open>undefined\<close> property; JSON serialisation drops such a property, and
  reading it back gives \<^verbatim>\<open>undefined\<close> again. The field
  \<^verbatim>\<open>finishedTime?: string | null\<close> has three shapes.
\<close>

datatype TaskStatus = Pending | Done

datatype finished = Undefined | Null | Finished string

datatype provider = Credentials | Google | Github

datatype ntype = Upcoming | Overdue

record User =
  user_id :: string
  name :: string
  email :: string
  avatar :: "string option"
  provider :: provider

record Task =
  task_id :: string
  task_userId :: string
  task_text :: string
  description :: "string option"
  deadline :: string
  status :: TaskStatus
  finishedTime :: finished
  task_createdAt :: string

record Notification =
  notif_id :: string
  notif_userId :: string
  taskId :: string
  message :: string
  type :: ntype
  isRead :: bool
  notif_createdAt :: string
  emailSent :: bool

text \<open>
  The object that \<^verbatim>\<open>register\<close> pushes on the users list: the public fields
  of a user together with the login handle and the plaintext secret.
\<close>

record StoredUser =
  su_id :: string
  username :: string
  password :: string
  su_name :: string
  su_email :: string
  su_avatar :: "string option"
  su_provider :: provider

datatype SortOption = DeadlineAsc | DeadlineDesc | CreatedDesc | CreatedAsc

datatype FilterOption = FilterAll | FilterPending | FilterDone

section \<open>The key-value store\<close>

text \<open>
  What \<^verbatim>\<open>localStorage.getItem(KEY)\<close> and \<^verbatim>\<open>JSON.parse\<close> make of one key:
  \<^item> \<open>Missing\<close>: the item is \<^verbatim>\<open>null\<close> or the empty string (\<^verbatim>\<open>raw\<close> is falsy);
  \<^item> \<open>Unparsable\<close>: \<^verbatim>\<open>JSON.parse(raw)\<close> throws;
  \<^item> \<open>NotArray\<close>: the text parses to a value that is not an array;
  \<^item> \<open>Array xs\<close>: the text parses to the array \<open>xs\<close>.
  The elements of an array are records of the collection's type; \<^verbatim>\<open>setItem\<close> is
  taken to succeed.
\<close>

datatype 'a blob = Missing | Unparsable | NotArray | Array "'a list"

record store =
  tasks_db :: "Task blob"
  users_db :: "StoredUser blob"
  notifications_db :: "Notification blob"

datatype error = UsernameTaken | InvalidCredentials

text \<open>\<^verbatim>\<open>Array.prototype.findIndex\<close>: the first index whose element satisfies the
  predicate, or \<open>-1\<close>.\<close>

fun findIndex :: "('a \<Rightarrow> bool) \<Rightarrow> 'a list \<Rightarrow> int" where
  "findIndex P [] = -1"
| "findIndex P (x # xs) =
     (if P x then 0 else (let i = findIndex P xs in if i < 0 then -1 else i + 1))"

section \<open>Storage service: tasks\<close>

text \<open>\<^verbatim>\<open>getTasks\<close>: a missing item reads as the empty array, a parse error is caught,
  a value that is not an array gives the empty list.\<close>

definition getTasks :: "store \<Rightarrow> string \<Rightarrow> Task list" where
  "getTasks st userId =
     (case tasks_db st of
        Missing \<Rightarrow> filter (\<lambda>t. task_userId t = userId) []
      | Unparsable \<Rightarrow> []
      | NotArray \<Rightarrow> []
      | Array allTasks \<Rightarrow> filter (\<lambda>t. task_userId t = userId) allTasks)"

text \<open>The list \<^verbatim>\<open>allTasks\<close> that \<^verbatim>\<open>saveTask\<close> works on after its own
  \<^verbatim>\<open>try\<close>/\<^verbatim>\<open>catch\<close>: every unusable item is replaced by the empty array.\<close>

definition loadAllTasks :: "store \<Rightarrow> Task list" where
  "loadAllTasks st =
     (case tasks_db st of
        Missing \<Rightarrow> []
      | Unparsable \<Rightarrow> []
      | NotArray \<Rightarrow> []
      | Array allTasks \<Rightarrow> allTasks)"

definition saveTask :: "store \<Rightarrow> Task \<Rightarrow> store \<times> Task" where
  "saveTask st task =
     (let allTasks = loadAllTasks st;
          existingIndex = findIndex (\<lambda>t. task_id t = task_id task) allTasks;
          allTasks' = (if existingIndex \<ge> 0 then allTasks[nat existingIndex := task]
                       else allTasks @ [task])
      in (st\<lparr>tasks_db := Array allTasks'\<rparr>, task))"

text \<open>\<^verbatim>\<open>deleteTask\<close> and \<^verbatim>\<open>deleteAllTasks\<close> write only when the parsed value is
  an array; a parse error is caught and logged, and the store stays as it is.\<close>

definition deleteTask :: "store \<Rightarrow> string \<Rightarrow> store" where
  "deleteTask st taskId' =
     (case tasks_db st of
        Missing \<Rightarrow> st\<lparr>tasks_db := Array (filter (\<lambda>t. task_id t \<noteq> taskId') [])\<rparr>
      | Unparsable \<Rightarrow> st
      | NotArray \<Rightarrow> st
      | Array allTasks \<Rightarrow> st\<lparr>tasks_db := Array (filter (\<lambda>t. task_id t \<noteq> taskId') allTasks)\<rparr>)"

definition deleteAllTasks :: "store \<Rightarrow> string \<Rightarrow> store" where
  "deleteAllTasks st userId =
     (case tasks_db st of
        Missing \<Rightarrow> st\<lparr>tasks_db := Array (filter (\<lambda>t. task_userId t \<noteq> userId) [])\<rparr>
      | Unparsable \<Rightarrow> st
      | NotArray \<Rightarrow> st
      | Array allTasks \<Rightarrow>
          st\<lparr>tasks_db := Array (filter (\<lambda>t. task_userId t \<noteq> userId) allTasks)\<rparr>)"

section \<open>Numbers, dates and sorting of the JavaScript runtime\<close>

text \<open>
  \<^verbatim>\<open>new Date(s).getTime()\<close> is a parameter \<open>getTime\<close> of the model: it gives the
  time in milliseconds, or \<open>None\<close> for \<^verbatim>\<open>NaN\<close> (an invalid date). Subtraction and
  comparison follow the rules for \<^verbatim>\<open>NaN\<close>: a difference with \<^verbatim>\<open>NaN\<close> is
  \<^verbatim>\<open>NaN\<close>, and every comparison with \<^verbatim>\<open>NaN\<close> is false.
\<close>

definition num_sub :: "int option \<Rightarrow> int option \<Rightarrow> int option" where
  "num_sub a b = (case a of None \<Rightarrow> None | Some x \<Rightarrow> (case b of None \<Rightarrow> None | Some y \<Rightarrow> Some (x - y)))"

definition num_lt :: "int option \<Rightarrow> int \<Rightarrow> bool" where
  "num_lt a c = (case a of None \<Rightarrow> False | Some x \<Rightarrow> x < c)"

text \<open>
  \<^verbatim>\<open>Array.prototype.sort(cmp)\<close> belongs to the JavaScript engine and is a parameter
  \<open>arraySort\<close> of the model. What the language definition (ECMAScript 2019 and later)
  fixes is written down in \<open>sort_conforms\<close>:
  \<^item> the result of the comparator is read as a number, and \<^verbatim>\<open>NaN\<close> counts as
    \<open>0\<close> (\<open>sortCompare\<close>);
  \<^item> the result holds the elements of the array, each as often as before;
  \<^item> when the comparator is consistent on the elements, the result is ordered by it
    and elements that compare equal keep their order (the sort is stable);
  \<^item> when the comparator is not consistent, the order is left to the engine.
  A comparator that subtracts two times is not consistent when one date is invalid and
  two others differ: the invalid one compares equal to both.
\<close>

definition sortCompare :: "('a \<Rightarrow> 'a \<Rightarrow> int option) \<Rightarrow> 'a \<Rightarrow> 'a \<Rightarrow> int" where
  "sortCompare cmp a b = (case cmp a b of None \<Rightarrow> 0 | Some v \<Rightarrow> v)"

text \<open>A consistent comparator, as the language definition lists it: equal to itself,
  symmetric, and transitive in each of the three outcomes.\<close>

definition consistent :: "('a \<Rightarrow> 'a \<Rightarrow> int option) \<Rightarrow> 'a set \<Rightarrow> bool" where
  "consistent cmp S \<longleftrightarrow>
     (\<forall>a \<in> S. sortCompare cmp a a = 0) \<and>
     (\<forall>a \<in> S. \<forall>b \<in> S. sortCompare cmp a b = 0 \<longrightarrow> sortCompare cmp b a = 0) \<and>
     (\<forall>a \<in> S. \<forall>b \<in> S. sortCompare cmp a b < 0 \<longrightarrow> sortCompare cmp b a > 0) \<and>
     (\<forall>a \<in> S. \<forall>b \<in> S. \<forall>c \<in> S.
         sortCompare cmp a b = 0 \<longrightarrow> sortCompare cmp b c = 0 \<longrightarrow> sortCompare cmp a c = 0) \<and>
     (\<forall>a \<in> S. \<forall>b \<in> S. \<forall>c \<in> S.
         sortCompare cmp a b < 0 \<longrightarrow> sortCompare cmp b c < 0 \<longrightarrow> sortCompare cmp a c < 0) \<and>
     (\<forall>a \<in> S. \<forall>b \<in> S. \<forall>c \<in> S.
         sortCompare cmp a b > 0 \<longrightarrow> sortCompare cmp b c > 0 \<longrightarrow> sortCompare cmp a c > 0)"

definition sort_conforms :: "(('a \<Rightarrow> 'a \<Rightarrow> int option) \<Rightarrow> 'a list \<Rightarrow> 'a list) \<Rightarrow> bool" where
  "sort_conforms arraySort \<longleftrightarrow>
     (\<forall>cmp xs. mset (arraySort cmp xs) = mset xs) \<and>
     (\<forall>cmp xs. consistent cmp (set xs) \<longrightarrow>
        sorted_wrt (\<lambda>a b. sortCompare cmp a b \<le> 0) (arraySort cmp xs) \<and>
        (\<forall>x \<in> set xs. filter (\<lambda>y. sortCompare cmp x y = 0) (arraySort cmp xs)
                         = filter (\<lambda>y. sortCompare cmp x y = 0) xs))"

text \<open>
  Two sort functions. The first is a plain stable insertion sort: an element goes in
  front of the first element of the sorted rest that it does not have to follow.
\<close>

fun insert_by :: "('a \<Rightarrow> 'a \<Rightarrow> int option) \<Rightarrow> 'a \<Rightarrow> 'a list \<Rightarrow> 'a list" where
  "insert_by cmp x [] = [x]"
| "insert_by cmp x (y # ys) =
     (if sortCompare cmp x y > 0 then y # insert_by cmp x ys else x # y # ys)"

definition insertion_sort :: "('a \<Rightarrow> 'a \<Rightarrow> int option) \<Rightarrow> 'a list \<Rightarrow> 'a list" where
  "insertion_sort cmp xs = foldr (insert_by cmp) xs []"

text \<open>
  The second is what the V8 engine (Chrome, Node.js) does with an array of fewer than 64
  elements, where the minimal run length of its TimSort is the length of the array:
  \<^item> \<^verbatim>\<open>CountAndMakeRun\<close>: the first two elements decide whether the initial run
    descends (the second is smaller than the first), the run goes on as long as each
    element is smaller than the one before (descending) or not smaller (ascending), and a
    descending run is reversed;
  \<^item> \<^verbatim>\<open>BinaryInsertionSort\<close>: each further element is the pivot of a binary search
    in the part before it, \<^verbatim>\<open>order = Compare(pivot, workArray[mid])\<close>,
    \<^verbatim>\<open>order < 0\<close> moves \<^verbatim>\<open>right\<close> to \<^verbatim>\<open>mid\<close> and otherwise \<^verbatim>\<open>left\<close>
    to \<^verbatim>\<open>mid + 1\<close>, and the pivot is put at \<^verbatim>\<open>left\<close>.
\<close>

fun extend_run ::
  "bool \<Rightarrow> ('a \<Rightarrow> 'a \<Rightarrow> int option) \<Rightarrow> 'a \<Rightarrow> 'a list \<Rightarrow> 'a list \<times> 'a list" where
  "extend_run isDescending cmp previousElement [] = ([], [])"
| "extend_run isDescending cmp previousElement (currentElement # rest) =
     (if (if isDescending then sortCompare cmp currentElement previousElement \<ge> 0
          else sortCompare cmp currentElement previousElement < 0)
      then ([], currentElement # rest)
      else (case extend_run isDescending cmp currentElement rest of
              (run, rest') \<Rightarrow> (currentElement # run, rest')))"

fun count_and_make_run :: "('a \<Rightarrow> 'a \<Rightarrow> int option) \<Rightarrow> 'a list \<Rightarrow> 'a list \<times> 'a list" where
  "count_and_make_run cmp [] = ([], [])"
| "count_and_make_run cmp [x] = ([x], [])"
| "count_and_make_run cmp (elementHigh # elementLow # rest) =
     (let isDescending = sortCompare cmp elementLow elementHigh < 0 in
      case extend_run isDescending cmp elementLow rest of
        (run, rest') \<Rightarrow>
          (if isDescending then rev (elementHigh # elementLow # run)
           else elementHigh # elementLow # run, rest'))"

function binary_search ::
  "('a \<Rightarrow> 'a \<Rightarrow> int option) \<Rightarrow> 'a \<Rightarrow> 'a list \<Rightarrow> nat \<Rightarrow> nat \<Rightarrow> nat" where
  "binary_search cmp pivot workArray left right =
     (if left < right then
        (if sortCompare cmp pivot (workArray ! (left + (right - left) div 2)) < 0
         then binary_search cmp pivot workArray left (left + (right - left) div 2)
         else binary_search cmp pivot workArray (left + (right - left) div 2 + 1) right)
      else left)"
  by pat_completeness auto
termination
  by (relation "measure (\<lambda>(cmp, pivot, workArray, left, right). right - left)") auto

declare binary_search.simps [simp del]

definition binary_insert :: "('a \<Rightarrow> 'a \<Rightarrow> int option) \<Rightarrow> 'a list \<Rightarrow> 'a \<Rightarrow> 'a list" where
  "binary_insert cmp workArray pivot =
     (let left = binary_search cmp pivot workArray 0 (length workArray)
      in take left workArray @ pivot # drop left workArray)"

definition timsort_short :: "('a \<Rightarrow> 'a \<Rightarrow> int option) \<Rightarrow> 'a list \<Rightarrow> 'a list" where
  "timsort_short cmp xs =
     (if length xs < 2 then xs
      else case count_and_make_run cmp xs of
             (run, rest) \<Rightarrow> foldl (binary_insert cmp) run rest)"

text \<open>\<^verbatim>\<open>String.prototype.includes\<close> (here \<open>str_includes\<close>): the argument occurs as a contiguous part.\<close>

fun startsWith :: "string \<Rightarrow> string \<Rightarrow> bool" where
  "startsWith s [] = True"
| "startsWith [] (c # sub) = False"
| "startsWith (d # s) (c # sub) = (d = c \<and> startsWith s sub)"

fun str_includes :: "string \<Rightarrow> string \<Rightarrow> bool" where
  "str_includes [] sub = (sub = [])"
| "str_includes (c # s) sub = (startsWith (c # s) sub \<or> str_includes s sub)"

text \<open>A number in a template literal: its decimal digits.\<close>

definition digit :: "nat \<Rightarrow> char" where
  "digit d = char_of (48 + d)"

fun show_nat :: "nat \<Rightarrow> string" where
  "show_nat n = (if n < 10 then [digit n] else show_nat (n div 10) @ [digit (n mod 10)])"

definition show_int :: "int \<Rightarrow> string" where
  "show_int i = (if i < 0 then CHR ''-'' # show_nat (nat (- i)) else show_nat (nat i))"

section \<open>Storage service: notifications\<close>

definition getNotifications ::
  "((Notification \<Rightarrow> Notification \<Rightarrow> int option) \<Rightarrow> Notification list \<Rightarrow> Notification list) \<Rightarrow>
   (string \<Rightarrow> int option) \<Rightarrow> store \<Rightarrow> string \<Rightarrow> Notification list" where
  "getNotifications arraySort getTime st userId =
     (let byCreatedDesc = (\<lambda>a b. num_sub (getTime (notif_createdAt b)) (getTime (notif_createdAt a)))
      in case notifications_db st of
           Missing \<Rightarrow> arraySort byCreatedDesc (filter (\<lambda>n. notif_userId n = userId) [])
         | Unparsable \<Rightarrow> []
         | NotArray \<Rightarrow> []
         | Array all \<Rightarrow> arraySort byCreatedDesc (filter (\<lambda>n. notif_userId n = userId) all))"

text \<open>
  \<^verbatim>\<open>addNotification\<close>: the whole body is inside one \<^verbatim>\<open>try\<close>, so a parse error
  is caught and logged and nothing is written. A value that is not an array is replaced
  by the empty list (\<^verbatim>\<open>safeAll\<close>).
\<close>

definition addNotification :: "store \<Rightarrow> Notification \<Rightarrow> store" where
  "addNotification st notification =
     (case notifications_db st of
        Unparsable \<Rightarrow> st
      | parsed \<Rightarrow>
          (let safeAll = (case parsed of Array all \<Rightarrow> all | _ \<Rightarrow> []);
               exists = find (\<lambda>n. taskId n = taskId notification \<and> type n = type notification
                                   \<and> notif_userId n = notif_userId notification) safeAll
           in if exists = None
              then st\<lparr>notifications_db := Array (safeAll @ [notification])\<rparr>
              else st))"

definition markNotificationRead :: "store \<Rightarrow> string \<Rightarrow> store" where
  "markNotificationRead st notificationId =
     (case notifications_db st of
        Unparsable \<Rightarrow> st
      | NotArray \<Rightarrow> st
      | parsed \<Rightarrow>
          (let all = (case parsed of Array xs \<Rightarrow> xs | _ \<Rightarrow> []);
               idx = findIndex (\<lambda>n. notif_id n = notificationId) all
           in if idx \<ge> 0
              then st\<lparr>notifications_db := Array (all[nat idx := (all ! nat idx)\<lparr>isRead := True\<rparr>])\<rparr>
              else st))"

definition markAllNotificationsRead :: "store \<Rightarrow> string \<Rightarrow> store" where
  "markAllNotificationsRead st userId =
     (case notifications_db st of
        Unparsable \<Rightarrow> st
      | NotArray \<Rightarrow> st
      | parsed \<Rightarrow>
          (let all = (case parsed of Array xs \<Rightarrow> xs | _ \<Rightarrow> [])
           in st\<lparr>notifications_db :=
                   Array (map (\<lambda>n. if notif_userId n = userId then n\<lparr>isRead := True\<rparr> else n) all)\<rparr>))"

section \<open>Storage service: registration and login\<close>

definition getSafeUsers :: "store \<Rightarrow> StoredUser list" where
  "getSafeUsers st =
     (case users_db st of
        Missing \<Rightarrow> []
      | Unparsable \<Rightarrow> []
      | NotArray \<Rightarrow> []
      | Array parsed \<Rightarrow> parsed)"

text \<open>
  \<^verbatim>\<open>register\<close> throws when the name is taken; the exception is the value
  \<open>Inl UsernameTaken\<close>. \<^verbatim>\<open>Date.now()\<close> is the parameter \<open>now\<close>.
\<close>

definition register :: "store \<Rightarrow> int \<Rightarrow> string \<Rightarrow> string \<Rightarrow> error + store \<times> User" where
  "register st now username' password' =
     (let users = getSafeUsers st in
      if find (\<lambda>u. username u = username') users \<noteq> None then Inl UsernameTaken
      else
        (let newUser = \<lparr>su_id = ''user_cred_'' @ show_int now,
                        username = username',
                        password = password',
                        su_name = username',
                        su_email = username' @ ''@example.com'',
                        su_avatar = Some (''https://ui-avatars.com/api/?name='' @ username'
                                          @ ''&background=random&color=fff&background=6366f1''),
                        su_provider = Credentials\<rparr>
         in Inr (st\<lparr>users_db := Array (users @ [newUser])\<rparr>,
                 \<lparr>user_id = su_id newUser,
                  name = su_name newUser,
                  email = su_email newUser,
                  avatar = su_avatar newUser,
                  provider = Credentials\<rparr>)))"

text \<open>
  The optional argument \<^verbatim>\<open>credentials?: {username: string, password?: string}\<close>.
  A stored handle or secret is a string, so it is never strictly equal to
  \<^verbatim>\<open>undefined\<close>.
\<close>

type_synonym credentials = "string \<times> string option"

definition credentials_match :: "credentials option \<Rightarrow> StoredUser \<Rightarrow> bool" where
  "credentials_match credentials u =
     (case credentials of
        None \<Rightarrow> False
      | Some (username', password') \<Rightarrow>
          username u = username' \<and> (case password' of None \<Rightarrow> False | Some p \<Rightarrow> password u = p))"

definition login :: "store \<Rightarrow> string \<Rightarrow> credentials option \<Rightarrow> error + User" where
  "login st provider' credentials =
     (if provider' = ''google'' then
        Inr \<lparr>user_id = ''user_google_123'', name = ''Alex Google'', email = ''alex@gmail.com'',
             avatar = Some ''https://picsum.photos/seed/google/200'', provider = Google\<rparr>
      else if provider' = ''github'' then
        Inr \<lparr>user_id = ''user_github_456'', name = ''Dev Github'', email = ''dev@github.com'',
             avatar = Some ''https://picsum.photos/seed/github/200'', provider = Github\<rparr>
      else
        (let users = getSafeUsers st in
         case find (credentials_match credentials) users of
           None \<Rightarrow> Inl InvalidCredentials
         | Some found \<Rightarrow>
             Inr \<lparr>user_id = su_id found, name = su_name found, email = su_email found,
                  avatar = su_avatar found, provider = Credentials\<rparr>))"

section \<open>The operations of the storage service as one step function\<close>

datatype operation =
    GetTasks string
  | SaveTask Task
  | DeleteTask string
  | DeleteAllTasks string
  | GetNotifications string
  | AddNotification Notification
  | MarkNotificationRead string
  | MarkAllNotificationsRead string
  | Register int string string
  | Login string "credentials option"

fun perform :: "store \<Rightarrow> operation \<Rightarrow> store" where
  "perform st (GetTasks u) = st"
| "perform st (SaveTask t) = fst (saveTask st t)"
| "perform st (DeleteTask i) = deleteTask st i"
| "perform st (DeleteAllTasks u) = deleteAllTasks st u"
| "perform st (GetNotifications u) = st"
| "perform st (AddNotification n) = addNotification st n"
| "perform st (MarkNotificationRead i) = markNotificationRead st i"
| "perform st (MarkAllNotificationsRead u) = markAllNotificationsRead st u"
| "perform st (Register now u p) = (case register st now u p of Inl e \<Rightarrow> st | Inr r \<Rightarrow> fst r)"
| "perform st (Login p c) = st"

section \<open>Application controller: the deadline evaluator\<close>

text \<open>The two message texts, as the bytes of their UTF-8 encoding.\<close>

definition overdue_message :: "string \<Rightarrow> string" where
  "overdue_message task_text' =
     [CHR ''C'', CHR 0xC3, CHR 0xB4, CHR ''n'', CHR ''g'', CHR '' '',
      CHR ''v'', CHR ''i'', CHR 0xE1, CHR 0xBB, CHR 0x87, CHR ''c'', CHR '' '', CHR 0x22]
     @ task_text' @
     [CHR 0x22, CHR '' '', CHR 0xC4, CHR 0x91, CHR 0xC3, CHR 0xA3, CHR '' '',
      CHR ''q'', CHR ''u'', CHR 0xC3, CHR 0xA1, CHR '' '',
      CHR ''h'', CHR 0xE1, CHR 0xBA, CHR 0xA1, CHR ''n'', CHR ''!'']"

definition upcoming_message :: "string \<Rightarrow> string" where
  "upcoming_message task_text' =
     [CHR ''C'', CHR 0xC3, CHR 0xB4, CHR ''n'', CHR ''g'', CHR '' '',
      CHR ''v'', CHR ''i'', CHR 0xE1, CHR 0xBB, CHR 0x87, CHR ''c'', CHR '' '', CHR 0x22]
     @ task_text' @
     [CHR 0x22, CHR '' '', CHR ''s'', CHR 0xE1, CHR 0xBA, CHR 0xAF, CHR ''p'', CHR '' '',
      CHR 0xC4, CHR 0x91, CHR 0xE1, CHR 0xBA, CHR 0xBF, CHR ''n'', CHR '' '',
      CHR ''h'', CHR 0xE1, CHR 0xBA, CHR 0xA1, CHR ''n'', CHR '' '', CHR ''('',
      CHR ''d'', CHR 0xC6, CHR 0xB0, CHR 0xE1, CHR 0xBB, CHR 0x9B, CHR ''i'', CHR '' ''] @ ''24h).''"

definition oneDay :: int where
  "oneDay = 24 * 60 * 60 * 1000"

text \<open>
  The classification inside the loop of \<^verbatim>\<open>checkDeadlines\<close>: a task that is done is
  skipped (\<open>None\<close>); otherwise \<^verbatim>\<open>diff = deadline.getTime() - now.getTime()\<close>
  decides, and \<^verbatim>\<open>type\<close> stays \<^verbatim>\<open>null\<close> (\<open>None\<close>) when neither test holds.
\<close>

definition classify :: "(string \<Rightarrow> int option) \<Rightarrow> int \<Rightarrow> Task \<Rightarrow> (ntype \<times> string) option" where
  "classify getTime now task =
     (if status task = Done then None
      else
        (let diff = num_sub (getTime (deadline task)) (Some now) in
         if num_lt diff 0 then Some (Overdue, overdue_message (task_text task))
         else if num_lt diff oneDay then Some (Upcoming, upcoming_message (task_text task))
         else None))"

text \<open>
  The state of one run of \<^verbatim>\<open>checkDeadlines\<close>: the store, the flag
  \<^verbatim>\<open>hasNewNotification\<close>, and the notifications created so far, in order (one mock
  email is logged for each). \<^verbatim>\<open>crypto.randomUUID()\<close> and
  \<^verbatim>\<open>new Date().toISOString()\<close> are parameters, indexed by the number of
  notifications the run has created before.
\<close>

record eval_state =
  es_store :: store
  hasNewNotification :: bool
  created :: "Notification list"

definition checkDeadlines_task ::
  "(string \<Rightarrow> int option) \<Rightarrow> (nat \<Rightarrow> string) \<Rightarrow> (nat \<Rightarrow> string) \<Rightarrow> User \<Rightarrow>
   Notification list \<Rightarrow> int \<Rightarrow> Task \<Rightarrow> eval_state \<Rightarrow> eval_state" where
  "checkDeadlines_task getTime randomUUID toISOString user notifications now task s =
     (case classify getTime now task of
        None \<Rightarrow> s
      | Some (type', message') \<Rightarrow>
          (let alreadyNotified =
                 list_ex (\<lambda>n. taskId n = task_id task \<and> type n = type') notifications
           in if \<not> alreadyNotified then
                (let newNotification =
                       \<lparr>notif_id = randomUUID (length (created s)),
                        notif_userId = user_id user,
                        taskId = task_id task,
                        message = message',
                        type = type',
                        isRead = False,
                        notif_createdAt = toISOString (length (created s)),
                        emailSent = True\<rparr>
                 in s\<lparr>es_store := addNotification (es_store s) newNotification,
                      hasNewNotification := True,
                      created := created s @ [newNotification]\<rparr>)
              else s))"

fun checkDeadlines_loop ::
  "(string \<Rightarrow> int option) \<Rightarrow> (nat \<Rightarrow> string) \<Rightarrow> (nat \<Rightarrow> string) \<Rightarrow> User \<Rightarrow>
   Notification list \<Rightarrow> int \<Rightarrow> Task list \<Rightarrow> eval_state \<Rightarrow> eval_state" where
  "checkDeadlines_loop getTime randomUUID toISOString user notifications now [] s = s"
| "checkDeadlines_loop getTime randomUUID toISOString user notifications now (task # tasks) s =
     checkDeadlines_loop getTime randomUUID toISOString user notifications now tasks
       (checkDeadlines_task getTime randomUUID toISOString user notifications now task s)"

text \<open>
  \<^verbatim>\<open>checkDeadlines\<close> reads the controller's \<^verbatim>\<open>user\<close>, \<^verbatim>\<open>tasks\<close> and
  \<^verbatim>\<open>notifications\<close>; the in-memory list is read as it was when the run started and
  is replaced by the stored list only after the loop, and only when a notification was
  created. The result is the final run state and the in-memory list after the run.
\<close>

definition checkDeadlines ::
  "((Notification \<Rightarrow> Notification \<Rightarrow> int option) \<Rightarrow> Notification list \<Rightarrow> Notification list) \<Rightarrow>
   (string \<Rightarrow> int option) \<Rightarrow> (nat \<Rightarrow> string) \<Rightarrow> (nat \<Rightarrow> string) \<Rightarrow> User option \<Rightarrow>
   Task list \<Rightarrow> Notification list \<Rightarrow> int \<Rightarrow> store \<Rightarrow> eval_state \<times> Notification list" where
  "checkDeadlines arraySort getTime randomUUID toISOString user tasks notifications now st =
     (case user of
        None \<Rightarrow> (\<lparr>es_store = st, hasNewNotification = False, created = []\<rparr>, notifications)
      | Some u \<Rightarrow>
          (let s = checkDeadlines_loop getTime randomUUID toISOString u notifications now tasks
                     \<lparr>es_store = st, hasNewNotification = False, created = []\<rparr>
           in if hasNewNotification s
              then (s, getNotifications arraySort getTime (es_store s) (user_id u))
              else (s, notifications)))"

section \<open>Application controller: the derived task view\<close>

text \<open>
  Arrays are mutable objects, and \<^verbatim>\<open>sort\<close> works in place. The heap is a list of
  arrays, a reference is an index into it; \<^verbatim>\<open>[...tasks]\<close> and \<^verbatim>\<open>filter\<close>
  allocate a new array, \<^verbatim>\<open>sort\<close> overwrites the array it is called on with what
  the engine's sort function makes of it.
\<close>

type_synonym heap = "Task list list"

definition alloc :: "heap \<Rightarrow> Task list \<Rightarrow> heap \<times> nat" where
  "alloc h xs = (h @ [xs], length h)"

definition sort_in_place ::
  "((Task \<Rightarrow> Task \<Rightarrow> int option) \<Rightarrow> Task list \<Rightarrow> Task list) \<Rightarrow>
   (Task \<Rightarrow> Task \<Rightarrow> int option) \<Rightarrow> heap \<Rightarrow> nat \<Rightarrow> heap" where
  "sort_in_place arraySort cmp h r = h[r := arraySort cmp (h ! r)]"

definition matches_search :: "(string \<Rightarrow> string) \<Rightarrow> string \<Rightarrow> Task \<Rightarrow> bool" where
  "matches_search toLowerCase lower t =
     (str_includes (toLowerCase (task_text t)) lower \<or>
      (case description t of
         None \<Rightarrow> False
       | Some d \<Rightarrow> d \<noteq> [] \<and> str_includes (toLowerCase d) lower))"

definition compareTasks :: "(string \<Rightarrow> int option) \<Rightarrow> SortOption \<Rightarrow> Task \<Rightarrow> Task \<Rightarrow> int option" where
  "compareTasks getTime sortBy a b =
     (case sortBy of
        DeadlineAsc \<Rightarrow> num_sub (getTime (deadline a)) (getTime (deadline b))
      | DeadlineDesc \<Rightarrow> num_sub (getTime (deadline b)) (getTime (deadline a))
      | CreatedAsc \<Rightarrow> num_sub (getTime (task_createdAt a)) (getTime (task_createdAt b))
      | CreatedDesc \<Rightarrow> num_sub (getTime (task_createdAt b)) (getTime (task_createdAt a)))"

text \<open>
  \<^verbatim>\<open>filteredAndSortedTasks\<close>: \<open>tasks\<close> is the reference held by the controller's
  state; the result is the heap after the computation and the reference of the derived
  array. \<^verbatim>\<open>toLowerCase\<close> and the engine's sort function are parameters.
\<close>

definition filteredAndSortedTasks ::
  "((Task \<Rightarrow> Task \<Rightarrow> int option) \<Rightarrow> Task list \<Rightarrow> Task list) \<Rightarrow>
   (string \<Rightarrow> string) \<Rightarrow> (string \<Rightarrow> int option) \<Rightarrow> heap \<Rightarrow> nat \<Rightarrow> string \<Rightarrow> FilterOption \<Rightarrow>
   SortOption \<Rightarrow> heap \<times> nat" where
  "filteredAndSortedTasks arraySort toLowerCase getTime h tasks searchQuery filter' sortBy =
     (let (h1, result1) = alloc h (h ! tasks);
          (h2, result2) =
            (if searchQuery \<noteq> [] then
               (let lower = toLowerCase searchQuery
                in alloc h1 (filter (matches_search toLowerCase lower) (h1 ! result1)))
             else (h1, result1));
          (h3, result3) =
            (if filter' = FilterPending then alloc h2 (filter (\<lambda>t. status t = Pending) (h2 ! result2))
             else if filter' = FilterDone then alloc h2 (filter (\<lambda>t. status t = Done) (h2 ! result2))
             else (h2, result2));
          h4 = sort_in_place arraySort (compareTasks getTime sortBy) h3 result3
      in (h4, result3))"

section \<open>Notions used to state the properties\<close>

text \<open>The notifications that the service finds in the store: the parsed array, and
  nothing when the item is missing, unparsable or not an array.\<close>

definition storedNotifications :: "store \<Rightarrow> Notification list" where
  "storedNotifications st =
     (case notifications_db st of
        Missing \<Rightarrow> []
      | Unparsable \<Rightarrow> []
      | NotArray \<Rightarrow> []
      | Array all \<Rightarrow> all)"

definition triple :: "Notification \<Rightarrow> string \<times> string \<times> ntype" where
  "triple n = (notif_userId n, taskId n, type n)"

text \<open>At most one stored notification for each (user id, task id, kind).\<close>

definition unique_triples :: "store \<Rightarrow> bool" where
  "unique_triples st = distinct (map triple (storedNotifications st))"

text \<open>Every notification of the in-memory list has a stored notification of the user
  for the same task and kind, as it has after \<^verbatim>\<open>loadData\<close> or a reload.\<close>

definition backed_by_store :: "string \<Rightarrow> store \<Rightarrow> Notification list \<Rightarrow> bool" where
  "backed_by_store uid st notifications =
     list_all (\<lambda>n. list_ex (\<lambda>m. notif_userId m = uid \<and> taskId m = taskId n \<and> type m = type n)
                        (storedNotifications st)) notifications"

text \<open>The state in which a run of the evaluator starts.\<close>

definition fresh_run :: "store \<Rightarrow> eval_state" where
  "fresh_run st = \<lparr>es_store = st, hasNewNotification = False, created = []\<rparr>"

text \<open>The search predicate in the words of the specification: the lower-cased search
  text is part of the lower-cased title or of the lower-cased description; a task without
  description matches by its title only; the empty search text matches every task.\<close>

definition search_matches :: "(string \<Rightarrow> string) \<Rightarrow> string \<Rightarrow> Task \<Rightarrow> bool" where
  "search_matches toLowerCase searchQuery t =
     (searchQuery = [] \<or>
      str_includes (toLowerCase (task_text t)) (toLowerCase searchQuery) \<or>
      (case description t of
         None \<Rightarrow> False
       | Some d \<Rightarrow> str_includes (toLowerCase d) (toLowerCase searchQuery)))"

definition status_matches :: "FilterOption \<Rightarrow> Task \<Rightarrow> bool" where
  "status_matches filter' t =
     (case filter' of
        FilterAll \<Rightarrow> True
      | FilterPending \<Rightarrow> status t = Pending
      | FilterDone \<Rightarrow> status t = Done)"

text \<open>The tasks that the two filter steps of \<^verbatim>\<open>filteredAndSortedTasks\<close> keep.\<close>

definition kept :: "(string \<Rightarrow> string) \<Rightarrow> string \<Rightarrow> FilterOption \<Rightarrow> Task \<Rightarrow> bool" where
  "kept toLowerCase searchQuery filter' t =
     ((searchQuery = [] \<or> matches_search toLowerCase (toLowerCase searchQuery) t) \<and>
      status_matches filter' t)"

text \<open>The time a sort option orders by (\<open>None\<close> for an invalid date).\<close>

definition sort_key :: "(string \<Rightarrow> int option) \<Rightarrow> SortOption \<Rightarrow> Task \<Rightarrow> int option" where
  "sort_key getTime sortBy t =
     (case sortBy of
        DeadlineAsc \<Rightarrow> getTime (deadline t)
      | DeadlineDesc \<Rightarrow> getTime (deadline t)
      | CreatedAsc \<Rightarrow> getTime (task_createdAt t)
      | CreatedDesc \<Rightarrow> getTime (task_createdAt t))"

text \<open>An operation keeps the owner: a \<^verbatim>\<open>saveTask\<close> passes the user id of every
  stored entry that has the id of its task. The service does not check this.\<close>

definition keeps_owner :: "store \<Rightarrow> operation \<Rightarrow> bool" where
  "keeps_owner st op =
     (case op of
        SaveTask t \<Rightarrow> list_all (\<lambda>s. task_id s \<noteq> task_id t \<or> task_userId s = task_userId t) (loadAllTasks st)
      | _ \<Rightarrow> True)"

text \<open>Between two stores: a task of the second store whose id was stored before has
  the owner of an entry that had this id.\<close>

definition owner_stable :: "store \<Rightarrow> store \<Rightarrow> bool" where
  "owner_stable st st' =
     list_all (\<lambda>s'. \<not> list_ex (\<lambda>s. task_id s = task_id s') (loadAllTasks st) \<or>
                     list_ex (\<lambda>s. task_id s = task_id s' \<and> task_userId s = task_userId s') (loadAllTasks st))
       (loadAllTasks st')"

fun keeps_owner_all :: "store \<Rightarrow> operation list \<Rightarrow> bool" where
  "keeps_owner_all st [] = True"
| "keeps_owner_all st (op # ops) = (keeps_owner st op \<and> keeps_owner_all (perform st op) ops)"

fun owner_stable_along :: "store \<Rightarrow> operation list \<Rightarrow> bool" where
  "owner_stable_along st [] = True"
| "owner_stable_along st (op # ops) =
     (owner_stable st (perform st op) \<and> owner_stable_along (perform st op) ops)"

text \<open>The array that the reference returned by \<^verbatim>\<open>filteredAndSortedTasks\<close> points to,
  and the heap that the computation leaves.\<close>

definition derived_view ::
  "((Task \<Rightarrow> Task \<Rightarrow> int option) \<Rightarrow> Task list \<Rightarrow> Task list) \<Rightarrow>
   (string \<Rightarrow> string) \<Rightarrow> (string \<Rightarrow> int option) \<Rightarrow> heap \<Rightarrow> nat \<Rightarrow> string \<Rightarrow> FilterOption \<Rightarrow>
   SortOption \<Rightarrow> Task list" where
  "derived_view arraySort toLowerCase getTime h tasks searchQuery filter' sortBy =
     fst (filteredAndSortedTasks arraySort toLowerCase getTime h tasks searchQuery filter' sortBy)
       ! snd (filteredAndSortedTasks arraySort toLowerCase getTime h tasks searchQuery filter' sortBy)"

definition heap_after ::
  "((Task \<Rightarrow> Task \<Rightarrow> int option) \<Rightarrow> Task list \<Rightarrow> Task list) \<Rightarrow>
   (string \<Rightarrow> string) \<Rightarrow> (string \<Rightarrow> int option) \<Rightarrow> heap \<Rightarrow> nat \<Rightarrow> string \<Rightarrow> FilterOption \<Rightarrow>
   SortOption \<Rightarrow> heap" where
  "heap_after arraySort toLowerCase getTime h tasks searchQuery filter' sortBy =
     fst (filteredAndSortedTasks arraySort toLowerCase getTime h tasks searchQuery filter' sortBy)"

text \<open>Two tasks with valid dates stand in the order of a sort option.\<close>

definition in_order :: "(string \<Rightarrow> int option) \<Rightarrow> SortOption \<Rightarrow> Task \<Rightarrow> Task \<Rightarrow> bool" where
  "in_order getTime sortBy a b =
     (case sort_key getTime sortBy a of
        None \<Rightarrow> False
      | Some x \<Rightarrow>
          (case sort_key getTime sortBy b of
             None \<Rightarrow> False
           | Some y \<Rightarrow>
               (case sortBy of
                  DeadlineAsc \<Rightarrow> x \<le> y
                | DeadlineDesc \<Rightarrow> y \<le> x
                | CreatedAsc \<Rightarrow> x \<le> y
                | CreatedDesc \<Rightarrow> y \<le> x)))"

text \<open>The task is classified and the in-memory list has no notification for it and
  its kind: the loop creates one.\<close>

definition needs_notification ::
  "(string \<Rightarrow> int option) \<Rightarrow> int \<Rightarrow> Notification list \<Rightarrow> Task \<Rightarrow> bool" where
  "needs_notification getTime now notifications t =
     (case classify getTime now t of
        None \<Rightarrow> False
      | Some (k, msg) \<Rightarrow> \<not> list_ex (\<lambda>n. taskId n = task_id t \<and> type n = k) notifications)"

text \<open>The sort key with the sign of the direction (\<open>0\<close> for an invalid date).\<close>

definition signed_key :: "(string \<Rightarrow> int option) \<Rightarrow> SortOption \<Rightarrow> Task \<Rightarrow> int" where
  "signed_key getTime sortBy t =
     (case sort_key getTime sortBy t of
        None \<Rightarrow> 0
      | Some x \<Rightarrow>
          (case sortBy of
             DeadlineAsc \<Rightarrow> x
           | DeadlineDesc \<Rightarrow> - x
           | CreatedAsc \<Rightarrow> x
           | CreatedDesc \<Rightarrow> - x))"

section \<open>Concrete data for the examples\<close>

definition sample_task :: "string \<Rightarrow> string \<Rightarrow> TaskStatus \<Rightarrow> string \<Rightarrow> Task" where
  "sample_task i u s d =
     \<lparr>task_id = i, task_userId = u, task_text = ''write report'', description = None,
      deadline = d, status = s, finishedTime = Undefined,
      task_createdAt = ''2024-01-01T00:00:00.000Z''\<rparr>"

definition sample_store :: "Task list \<Rightarrow> store" where
  "sample_store ts = \<lparr>tasks_db = Array ts, users_db = Missing, notifications_db = Missing\<rparr>"

definition sample_notification :: "string \<Rightarrow> string \<Rightarrow> string \<Rightarrow> ntype \<Rightarrow> Notification" where
  "sample_notification i u t k =
     \<lparr>notif_id = i, notif_userId = u, taskId = t, message = ''report'', type = k,
      isRead = False, notif_createdAt = ''2024-01-02T00:00:00.000Z'', emailSent = True\<rparr>"

definition sample_notification_store :: "Notification blob \<Rightarrow> store" where
  "sample_notification_store b = \<lparr>tasks_db = Missing, users_db = Missing, notifications_db = b\<rparr>"

definition sample_getTime :: "string \<Rightarrow> int option" where
  "sample_getTime s =
     (if s = ''1970-01-01T00:00:01.000Z'' then Some 1000
      else if s = ''1970-01-01T02:00:00.000Z'' then Some 7200000
      else if s = ''1970-01-03T00:00:00.000Z'' then Some 172800000
      else None)"

definition sample_user :: User where
  "sample_user = \<lparr>user_id = ''ann'', name = ''ann'', email = ''ann@example.com'',
                   avatar = None, provider = Credentials\<rparr>"

definition sample_alice :: StoredUser where
  "sample_alice =
     \<lparr>su_id = ''user_cred_1'', username = ''alice'', password = ''pw1'', su_name = ''alice'',
      su_email = ''alice@example.com'', su_avatar = None, su_provider = Credentials\<rparr>"

definition sample_users_store :: "StoredUser blob \<Rightarrow> store" where
  "sample_users_store b = \<lparr>tasks_db = Missing, users_db = b, notifications_db = Missing\<rparr>"

definition sample_lower :: "string \<Rightarrow> string" where
  "sample_lower s = map (\<lambda>c. if c = CHR ''W'' then CHR ''w'' else if c = CHR ''R'' then CHR ''r'' else c) s"

definition sample_overdue :: Task where
  "sample_overdue = sample_task ''t1'' ''ann'' Pending ''1970-01-01T00:00:01.000Z''"

definition sample_dates :: "string \<Rightarrow> int option" where
  "sample_dates s =
     (if s = ''1970-01-01T00:00:00.001Z'' then Some 1
      else if s = ''1970-01-01T00:00:00.002Z'' then Some 2
      else if s = ''1970-01-01T00:00:00.003Z'' then Some 3
      else if s = ''1970-01-01T00:00:00.005Z'' then Some 5
      else if s = ''1970-01-01T00:00:00.009Z'' then Some 9
      else None)"

text \<open>Seven tasks; the deadline of the fourth is not a date, the fifth and the seventh
  have the same deadline.\<close>

definition sample_tasks :: "Task list" where
  "sample_tasks =
     [sample_task ''t0'' ''ann'' Pending ''1970-01-01T00:00:00.001Z'',
      sample_task ''t1'' ''ann'' Pending ''1970-01-01T00:00:00.002Z'',
      sample_task ''t2'' ''ann'' Pending ''1970-01-01T00:00:00.009Z'',
      sample_task ''t3'' ''ann'' Pending ''not a date'',
      sample_task ''t4'' ''ann'' Pending ''1970-01-01T00:00:00.005Z'',
      sample_task ''t5'' ''ann'' Pending ''1970-01-01T00:00:00.003Z'',
      sample_task ''t6'' ''ann'' Pending ''1970-01-01T00:00:00.005Z'']"

section \<open>Facts about findIndex\<close>

lemma findIndex_ge: "- 1 \<le> findIndex P xs"
  by (induction xs) (auto simp: Let_def)

lemma findIndex_neg_iff: "findIndex P xs < 0 \<longleftrightarrow> (\<forall>x \<in> set xs. \<not> P x)"
  by (induction xs) (auto simp: Let_def)

lemma findIndex_lt: "findIndex P xs < int (length xs)"
  by (induction xs) (auto simp: Let_def)

lemma findIndex_hit: "0 \<le> findIndex P xs \<Longrightarrow> P (xs ! nat (findIndex P xs))"
proof (induction xs)
  case Nil
  then show ?case by simp
next
  case (Cons x xs)
  show ?case
  proof (cases "P x")
    case True
    then show ?thesis by simp
  next
    case False
    with Cons.prems have nn: "0 \<le> findIndex P xs"
      by (auto simp: Let_def split: if_splits)
    then have "nat (findIndex P xs + 1) = Suc (nat (findIndex P xs))"
      by simp
    with False nn Cons.IH show ?thesis
      by (simp add: Let_def)
  qed
qed

lemma findIndex_first:
  "0 \<le> findIndex P xs \<Longrightarrow> j < nat (findIndex P xs) \<Longrightarrow> \<not> P (xs ! j)"
proof (induction xs arbitrary: j)
  case Nil
  then show ?case by simp
next
  case (Cons x xs)
  show ?case
  proof (cases "P x")
    case True
    with Cons.prems show ?thesis by simp
  next
    case False
    with Cons.prems have nn: "0 \<le> findIndex P xs"
      by (auto simp: Let_def split: if_splits)
    then have eq: "nat (findIndex P (x # xs)) = Suc (nat (findIndex P xs))"
      using False by (simp add: Let_def)
    show ?thesis
    proof (cases j)
      case 0
      with False show ?thesis by simp
    next
      case (Suc k)
      with Cons.prems(2) eq have "k < nat (findIndex P xs)" by simp
      with Cons.IH nn Suc show ?thesis by simp
    qed
  qed
qed

section \<open>The task collection\<close>

lemma loadAllTasks_cases:
  "loadAllTasks st = (case tasks_db st of Array ts \<Rightarrow> ts | _ \<Rightarrow> [])"
  by (simp add: loadAllTasks_def split: blob.splits)

lemma getTasks_filter: "getTasks st u = filter (\<lambda>t. task_userId t = u) (loadAllTasks st)"
  by (simp add: getTasks_def loadAllTasks_def split: blob.splits)

lemma loadAllTasks_saveTask:
  "loadAllTasks (fst (saveTask st t)) =
     (if 0 \<le> findIndex (\<lambda>s. task_id s = task_id t) (loadAllTasks st)
      then (loadAllTasks st)[nat (findIndex (\<lambda>s. task_id s = task_id t) (loadAllTasks st)) := t]
      else loadAllTasks st @ [t])"
  by (simp add: saveTask_def Let_def loadAllTasks_def)

text \<open>
  Claim C1. For every store and every task \<open>t\<close>, \<^verbatim>\<open>saveTask(t)\<close> returns \<open>t\<close>
  itself, and \<^verbatim>\<open>getTasks(t.userId)\<close> on the store it leaves contains \<open>t\<close>, equal in
  all fields. This holds whatever the tasks item held before (missing, unparsable, not an
  array, or an array with or without an entry of the same id).
\<close>

theorem saveTask_roundtrip:
  "snd (saveTask st t) = t \<and> t \<in> set (getTasks (fst (saveTask st t)) (task_userId t))"
proof
  show "snd (saveTask st t) = t"
    by (simp add: saveTask_def Let_def)
next
  let ?ts = "loadAllTasks st"
  let ?i = "findIndex (\<lambda>s. task_id s = task_id t) ?ts"
  have "t \<in> set (loadAllTasks (fst (saveTask st t)))"
  proof (cases "0 \<le> ?i")
    case True
    with findIndex_lt [of "\<lambda>s. task_id s = task_id t" ?ts] have "nat ?i < length ?ts"
      by simp
    then have "t \<in> set (?ts[nat ?i := t])"
      by (rule set_update_memI)
    with True show ?thesis
      by (simp add: loadAllTasks_saveTask)
  next
    case False
    then show ?thesis
      by (simp add: loadAllTasks_saveTask)
  qed
  then show "t \<in> set (getTasks (fst (saveTask st t)) (task_userId t))"
    by (simp add: getTasks_filter)
qed

text \<open>
  Claim C2. When an entry of the stored collection has the id of \<open>t\<close>,
  \<^verbatim>\<open>saveTask(t)\<close> overwrites one entry that has this id: the length of the
  collection is unchanged and every entry with a different id keeps its position and its
  value. When no entry has the id, \<open>t\<close> is appended at the end.
\<close>

theorem saveTask_upsert:
  "(list_ex (\<lambda>s. task_id s = task_id t) (loadAllTasks st) \<longrightarrow>
      length (loadAllTasks (fst (saveTask st t))) = length (loadAllTasks st) \<and>
      (\<exists>i < length (loadAllTasks st).
          task_id (loadAllTasks st ! i) = task_id t \<and>
          loadAllTasks (fst (saveTask st t)) = (loadAllTasks st)[i := t]) \<and>
      (\<forall>j < length (loadAllTasks st).
          task_id (loadAllTasks st ! j) \<noteq> task_id t \<longrightarrow>
          loadAllTasks (fst (saveTask st t)) ! j = loadAllTasks st ! j)) \<and>
   (\<not> list_ex (\<lambda>s. task_id s = task_id t) (loadAllTasks st) \<longrightarrow>
      loadAllTasks (fst (saveTask st t)) = loadAllTasks st @ [t])"
proof -
  let ?ts = "loadAllTasks st"
  let ?P = "\<lambda>s. task_id s = task_id t"
  let ?i = "findIndex ?P ?ts"
  have ex_iff: "list_ex ?P ?ts \<longleftrightarrow> 0 \<le> ?i"
    using findIndex_neg_iff [of ?P ?ts] by (auto simp: list_ex_iff)
  show ?thesis
  proof (cases "0 \<le> ?i")
    case True
    have lt: "nat ?i < length ?ts"
      using True findIndex_lt [of ?P ?ts] by simp
    have hit: "task_id (?ts ! nat ?i) = task_id t"
      using findIndex_hit [OF True] .
    have eq: "loadAllTasks (fst (saveTask st t)) = ?ts[nat ?i := t]"
      using True by (simp add: loadAllTasks_saveTask)
    have others: "\<forall>j < length ?ts. task_id (?ts ! j) \<noteq> task_id t \<longrightarrow> (?ts[nat ?i := t]) ! j = ?ts ! j"
      using hit by (metis nth_list_update_neq)
    show ?thesis
      using True ex_iff lt hit eq others by auto
  next
    case False
    then show ?thesis
      using ex_iff by (simp add: loadAllTasks_saveTask)
  qed
qed

text \<open>
  Claim C6. After \<^verbatim>\<open>deleteAllTasks(u)\<close> no task of \<open>u\<close> is left, every other
  user reads exactly the tasks read before, and the stored collection is the old one
  without the tasks of \<open>u\<close>, the remaining entries in their old order. The users and
  the notifications are not touched.
\<close>

theorem deleteAllTasks_isolation:
  "getTasks (deleteAllTasks st u) u = [] \<and>
   (\<forall>v. v \<noteq> u \<longrightarrow> getTasks (deleteAllTasks st u) v = getTasks st v) \<and>
   loadAllTasks (deleteAllTasks st u) = filter (\<lambda>t. task_userId t \<noteq> u) (loadAllTasks st) \<and>
   users_db (deleteAllTasks st u) = users_db st \<and>
   notifications_db (deleteAllTasks st u) = notifications_db st"
proof -
  have stored: "loadAllTasks (deleteAllTasks st u) = filter (\<lambda>t. task_userId t \<noteq> u) (loadAllTasks st)"
    by (simp add: deleteAllTasks_def loadAllTasks_def split: blob.splits)
  have own: "getTasks (deleteAllTasks st u) u = []"
    by (simp add: getTasks_filter stored)
  have other: "getTasks (deleteAllTasks st u) v = getTasks st v" if "v \<noteq> u" for v
  proof -
    have "filter (\<lambda>t. task_userId t = v) (filter (\<lambda>t. task_userId t \<noteq> u) (loadAllTasks st))
          = filter (\<lambda>t. task_userId t = v) (loadAllTasks st)"
      using that by (auto intro: filter_cong)
    then show ?thesis
      by (simp add: getTasks_filter stored)
  qed
  have frame: "users_db (deleteAllTasks st u) = users_db st \<and>
               notifications_db (deleteAllTasks st u) = notifications_db st"
    by (simp add: deleteAllTasks_def split: blob.splits)
  from stored own other frame show ?thesis by blast
qed

theorem saveTask_upsert_witness:
  "list_ex (\<lambda>s. task_id s = task_id (sample_task ''t1'' ''bob'' Done ''d2''))
      (loadAllTasks (sample_store [sample_task ''t0'' ''ann'' Pending ''d0'',
                                   sample_task ''t1'' ''ann'' Pending ''d1''])) \<and>
   length (loadAllTasks (fst (saveTask
       (sample_store [sample_task ''t0'' ''ann'' Pending ''d0'', sample_task ''t1'' ''ann'' Pending ''d1''])
       (sample_task ''t1'' ''bob'' Done ''d2'')))) = 2 \<and>
   \<not> list_ex (\<lambda>s. task_id s = task_id (sample_task ''t2'' ''ann'' Pending ''d2''))
      (loadAllTasks (sample_store [sample_task ''t0'' ''ann'' Pending ''d0''])) \<and>
   loadAllTasks (fst (saveTask (sample_store [sample_task ''t0'' ''ann'' Pending ''d0''])
       (sample_task ''t2'' ''ann'' Pending ''d2'')))
     = [sample_task ''t0'' ''ann'' Pending ''d0'', sample_task ''t2'' ''ann'' Pending ''d2'']"
proof -
  let ?st = "sample_store [sample_task ''t0'' ''ann'' Pending ''d0'', sample_task ''t1'' ''ann'' Pending ''d1'']"
  let ?t = "sample_task ''t1'' ''bob'' Done ''d2''"
  let ?st' = "sample_store [sample_task ''t0'' ''ann'' Pending ''d0'']"
  let ?t' = "sample_task ''t2'' ''ann'' Pending ''d2''"
  have h1: "list_ex (\<lambda>s. task_id s = task_id ?t) (loadAllTasks ?st)"
    by (simp add: loadAllTasks_def sample_store_def sample_task_def)
  have h3: "\<not> list_ex (\<lambda>s. task_id s = task_id ?t') (loadAllTasks ?st')"
    by (simp add: loadAllTasks_def sample_store_def sample_task_def)
  have len: "length (loadAllTasks ?st) = 2"
    by (simp add: loadAllTasks_def sample_store_def)
  have old: "loadAllTasks ?st' = [sample_task ''t0'' ''ann'' Pending ''d0'']"
    by (simp add: loadAllTasks_def sample_store_def)
  note a = saveTask_upsert [of ?t ?st, THEN conjunct1, THEN mp, OF h1, THEN conjunct1]
  note b = saveTask_upsert [of ?t' ?st', THEN conjunct2, THEN mp, OF h3]
  from a len have c: "length (loadAllTasks (fst (saveTask ?st ?t))) = 2"
    by (rule trans)
  from b old
  have d: "loadAllTasks (fst (saveTask ?st' ?t')) = [sample_task ''t0'' ''ann'' Pending ''d0'', ?t']"
    by simp
  from h1 c h3 d show ?thesis
    by (intro conjI)
qed

theorem deleteAllTasks_isolation_witness:
  "''bob'' \<noteq> ''ann'' \<and>
   getTasks (deleteAllTasks (sample_store [sample_task ''t0'' ''ann'' Pending ''d0'',
                                           sample_task ''t1'' ''bob'' Pending ''d1'',
                                           sample_task ''t2'' ''ann'' Done ''d2'']) ''ann'') ''bob''
     = [sample_task ''t1'' ''bob'' Pending ''d1'']"
proof -
  let ?st = "sample_store [sample_task ''t0'' ''ann'' Pending ''d0'',
                            sample_task ''t1'' ''bob'' Pending ''d1'',
                            sample_task ''t2'' ''ann'' Done ''d2'']"
  have ne: "''bob'' \<noteq> ''ann''" by simp
  have before: "getTasks ?st ''bob'' = [sample_task ''t1'' ''bob'' Pending ''d1'']"
    by (simp add: getTasks_def sample_store_def sample_task_def)
  note a = deleteAllTasks_isolation [of ?st "''ann''", THEN conjunct2, THEN conjunct1, THEN spec, THEN mp, OF ne]
  from a before have b: "getTasks (deleteAllTasks ?st ''ann'') ''bob'' = [sample_task ''t1'' ''bob'' Pending ''d1'']"
    by (rule trans)
  from ne b show ?thesis
    by (intro conjI)
qed

section \<open>Notifications in the store\<close>

lemma storedNotifications_addNotification:
  "storedNotifications (addNotification st n) =
     (if notifications_db st = Unparsable \<or> triple n \<in> set (map triple (storedNotifications st))
      then storedNotifications st
      else storedNotifications st @ [n])"
proof -
  have find_iff: "find (\<lambda>m. taskId m = taskId n \<and> type m = type n \<and> notif_userId m = notif_userId n) xs = None
        \<longleftrightarrow> triple n \<notin> set (map triple xs)" for xs
    by (auto simp: find_None_iff triple_def image_iff)
  show ?thesis
    by (cases "notifications_db st")
       (simp_all add: addNotification_def storedNotifications_def Let_def find_iff)
qed

lemma addNotification_parsable:
  "notifications_db (addNotification st n) = Unparsable \<longleftrightarrow> notifications_db st = Unparsable"
  by (cases "notifications_db st") (simp_all add: addNotification_def Let_def)

lemma addNotification_unique: "unique_triples st \<Longrightarrow> unique_triples (addNotification st n)"
  by (simp add: unique_triples_def storedNotifications_addNotification)

lemma foldl_addNotification_unique:
  "unique_triples st \<Longrightarrow> unique_triples (foldl addNotification st ns)"
  by (induction ns arbitrary: st) (simp_all add: addNotification_unique)

lemma count_one_if_distinct:
  "distinct (map f xs) \<Longrightarrow> x \<in> set xs \<Longrightarrow> length (filter (\<lambda>y. f y = f x) xs) = 1"
proof (induction xs)
  case Nil
  then show ?case by simp
next
  case (Cons a xs)
  show ?case
  proof (cases "f a = f x")
    case True
    with Cons.prems have "\<forall>y \<in> set xs. f y \<noteq> f x"
      by (auto simp: image_iff)
    then have "filter (\<lambda>y. f y = f x) xs = []"
      by (simp add: filter_empty_conv)
    with True show ?thesis by simp
  next
    case False
    with Cons show ?thesis by auto
  qed
qed

lemma addNotification_present:
  "notifications_db st \<noteq> Unparsable \<Longrightarrow>
   triple n \<in> set (map triple (storedNotifications (addNotification st n)))"
  by (simp add: storedNotifications_addNotification)

text \<open>
  Where the notifications item is missing, parses, or holds a value that is not an array,
  two calls of \<^verbatim>\<open>addNotification\<close> with the same triple leave exactly one stored
  notification with that triple, given that the stored notifications had at most one
  entry for each triple. The uniqueness of the triples is kept by each sequence of calls
  of \<^verbatim>\<open>addNotification\<close>, whatever the item holds.
\<close>

lemma addNotification_uniqueness:
  assumes "unique_triples st"
  shows "(notifications_db st \<noteq> Unparsable \<and> triple n1 = triple n2 \<longrightarrow>
            length (filter (\<lambda>m. triple m = triple n1)
                      (storedNotifications (addNotification (addNotification st n1) n2))) = 1) \<and>
         unique_triples (foldl addNotification st ns)"
proof (intro conjI impI)
  assume a: "notifications_db st \<noteq> Unparsable \<and> triple n1 = triple n2"
  let ?st1 = "addNotification st n1"
  let ?st2 = "addNotification ?st1 n2"
  from a have parsable: "notifications_db st \<noteq> Unparsable" and same: "triple n2 = triple n1"
    by simp_all
  from parsable have there: "triple n1 \<in> set (map triple (storedNotifications ?st1))"
    by (rule addNotification_present)
  then have "storedNotifications ?st2 = storedNotifications ?st1"
    unfolding storedNotifications_addNotification [of ?st1 n2] same by simp
  with there obtain m where m: "m \<in> set (storedNotifications ?st2)" "triple m = triple n1"
    by auto
  from assms have "distinct (map triple (storedNotifications ?st2))"
    using addNotification_unique unique_triples_def by blast
  from count_one_if_distinct [OF this m(1)] m(2)
  show "length (filter (\<lambda>m. triple m = triple n1) (storedNotifications ?st2)) = 1"
    by simp
next
  from assms show "unique_triples (foldl addNotification st ns)"
    by (rule foldl_addNotification_unique)
qed

lemma addNotification_uniqueness_example:
  "unique_triples (sample_notification_store Missing) \<and>
   length (filter (\<lambda>m. triple m = triple (sample_notification ''n1'' ''ann'' ''t1'' Overdue))
      (storedNotifications
         (addNotification
            (addNotification (sample_notification_store Missing)
               (sample_notification ''n1'' ''ann'' ''t1'' Overdue))
            (sample_notification ''n2'' ''ann'' ''t1'' Overdue)))) = 1"
proof -
  let ?st = "sample_notification_store Missing"
  let ?n1 = "sample_notification ''n1'' ''ann'' ''t1'' Overdue"
  let ?n2 = "sample_notification ''n2'' ''ann'' ''t1'' Overdue"
  have u: "unique_triples ?st"
    by (simp add: unique_triples_def storedNotifications_def sample_notification_store_def)
  have h: "notifications_db ?st \<noteq> Unparsable \<and> triple ?n1 = triple ?n2"
    by (simp add: sample_notification_store_def sample_notification_def triple_def)
  note a = addNotification_uniqueness [OF u, of ?n1 ?n2 "[]", THEN conjunct1, THEN mp, OF h]
  from u a show ?thesis
    by (intro conjI)
qed

text \<open>
  Claim C3. Two calls of \<^verbatim>\<open>addNotification\<close> with notifications that share the
  (user id, task id, kind) triple are to leave exactly one stored notification with that
  triple. The code misses this when the text under the notifications key is unparsable:
  \<^verbatim>\<open>JSON.parse\<close> throws inside the one \<^verbatim>\<open>try\<close> block around the whole body,
  the line that takes an unusable value for the empty list (\<^verbatim>\<open>safeAll\<close>) is not
  reached, and both calls write nothing, so that no notification with the triple is
  stored. For a value that is not an array the same function goes on with the empty
  list and stores the notification, and \<^verbatim>\<open>saveTask\<close> goes on with the empty list
  after a parse error and stores the task.
\<close>

theorem addNotification_unparsable_item:
  "unique_triples (sample_notification_store Unparsable) \<and>
   triple (sample_notification ''n1'' ''ann'' ''t1'' Overdue)
     = triple (sample_notification ''n2'' ''ann'' ''t1'' Overdue) \<and>
   addNotification
     (addNotification (sample_notification_store Unparsable)
        (sample_notification ''n1'' ''ann'' ''t1'' Overdue))
     (sample_notification ''n2'' ''ann'' ''t1'' Overdue)
     = sample_notification_store Unparsable \<and>
   length (filter (\<lambda>m. triple m = triple (sample_notification ''n1'' ''ann'' ''t1'' Overdue))
      (storedNotifications
         (addNotification
            (addNotification (sample_notification_store Unparsable)
               (sample_notification ''n1'' ''ann'' ''t1'' Overdue))
            (sample_notification ''n2'' ''ann'' ''t1'' Overdue)))) = 0 \<and>
   storedNotifications
     (addNotification
        (addNotification (sample_notification_store NotArray)
           (sample_notification ''n1'' ''ann'' ''t1'' Overdue))
        (sample_notification ''n2'' ''ann'' ''t1'' Overdue))
     = [sample_notification ''n1'' ''ann'' ''t1'' Overdue] \<and>
   loadAllTasks
     (fst (saveTask \<lparr>tasks_db = Unparsable, users_db = Missing, notifications_db = Missing\<rparr>
             (sample_task ''t1'' ''ann'' Pending ''d1'')))
     = [sample_task ''t1'' ''ann'' Pending ''d1'']"
  by (simp add: unique_triples_def storedNotifications_def sample_notification_store_def
        sample_notification_def triple_def addNotification_def saveTask_def loadAllTasks_def
        Let_def)

section \<open>Classification by the deadline\<close>

lemma classify_cases:
  "classify getTime now t =
     (if status t = Done then None
      else case getTime (deadline t) of
             None \<Rightarrow> None
           | Some d \<Rightarrow>
               if d < now then Some (Overdue, overdue_message (task_text t))
               else if d - now < 86400000 then Some (Upcoming, upcoming_message (task_text t))
               else None)"
  by (simp add: classify_def num_sub_def num_lt_def oneDay_def Let_def split: option.splits)

text \<open>
  Claim C5. The evaluator classifies a task as overdue exactly when the task is not done
  and its deadline is a time strictly before \<open>now\<close>; as upcoming exactly when the task
  is not done and its deadline is at or after \<open>now\<close> and less than 24 hours
  (86400000 ms) away; a task that is done is never classified; and for a task that is
  not classified the step of the loop changes nothing.
\<close>

theorem classify_deadline:
  "(map_option fst (classify getTime now t) = Some Overdue \<longleftrightarrow>
      status t \<noteq> Done \<and> (\<exists>d. getTime (deadline t) = Some d \<and> d < now)) \<and>
   (map_option fst (classify getTime now t) = Some Upcoming \<longleftrightarrow>
      status t \<noteq> Done \<and> (\<exists>d. getTime (deadline t) = Some d \<and> now \<le> d \<and> d - now < 24 * 60 * 60 * 1000)) \<and>
   (status t = Done \<longrightarrow> classify getTime now t = None) \<and>
   (map_option fst (classify getTime now t) \<noteq> Some Overdue \<and>
    map_option fst (classify getTime now t) \<noteq> Some Upcoming \<longrightarrow>
      checkDeadlines_task getTime randomUUID toISOString user notifications now t s = s)"
proof (intro conjI)
  show "map_option fst (classify getTime now t) = Some Overdue \<longleftrightarrow>
      status t \<noteq> Done \<and> (\<exists>d. getTime (deadline t) = Some d \<and> d < now)"
    by (auto simp: classify_cases split: option.splits)
  show "map_option fst (classify getTime now t) = Some Upcoming \<longleftrightarrow>
      status t \<noteq> Done \<and> (\<exists>d. getTime (deadline t) = Some d \<and> now \<le> d \<and> d - now < 24 * 60 * 60 * 1000)"
    by (auto simp: classify_cases split: option.splits)
  show "status t = Done \<longrightarrow> classify getTime now t = None"
    by (simp add: classify_cases)
  show "map_option fst (classify getTime now t) \<noteq> Some Overdue \<and>
    map_option fst (classify getTime now t) \<noteq> Some Upcoming \<longrightarrow>
      checkDeadlines_task getTime randomUUID toISOString user notifications now t s = s"
  proof
    assume a: "map_option fst (classify getTime now t) \<noteq> Some Overdue \<and>
      map_option fst (classify getTime now t) \<noteq> Some Upcoming"
    have "classify getTime now t = None"
    proof (cases "classify getTime now t")
      case None
      then show ?thesis .
    next
      case (Some p)
      with a show ?thesis
        by (cases p; cases "fst p") auto
    qed
    then show "checkDeadlines_task getTime randomUUID toISOString user notifications now t s = s"
      by (simp add: checkDeadlines_task_def)
  qed
qed

theorem classify_deadline_witness:
  "status (sample_task ''t1'' ''ann'' Done ''1970-01-01T00:00:01.000Z'') = Done \<and>
   classify sample_getTime 5000 (sample_task ''t1'' ''ann'' Done ''1970-01-01T00:00:01.000Z'') = None \<and>
   map_option fst (classify sample_getTime 5000
       (sample_task ''t2'' ''ann'' Pending ''1970-01-03T00:00:00.000Z'')) \<noteq> Some Overdue \<and>
   map_option fst (classify sample_getTime 5000
       (sample_task ''t2'' ''ann'' Pending ''1970-01-03T00:00:00.000Z'')) \<noteq> Some Upcoming \<and>
   checkDeadlines_task sample_getTime (\<lambda>k. ''id'') (\<lambda>k. ''now'') sample_user [] 5000
       (sample_task ''t2'' ''ann'' Pending ''1970-01-03T00:00:00.000Z'')
       (fresh_run (sample_notification_store Missing))
     = fresh_run (sample_notification_store Missing)"
proof -
  let ?done = "sample_task ''t1'' ''ann'' Done ''1970-01-01T00:00:01.000Z''"
  let ?far = "sample_task ''t2'' ''ann'' Pending ''1970-01-03T00:00:00.000Z''"
  have h1: "status ?done = Done"
    by (simp add: sample_task_def)
  have h2: "map_option fst (classify sample_getTime 5000 ?far) \<noteq> Some Overdue \<and>
            map_option fst (classify sample_getTime 5000 ?far) \<noteq> Some Upcoming"
    by (simp add: classify_cases sample_task_def sample_getTime_def)
  note a = classify_deadline [where getTime = sample_getTime and now = 5000 and t = ?done,
      THEN conjunct2, THEN conjunct2, THEN conjunct1, THEN mp, OF h1]
  note b = classify_deadline [where getTime = sample_getTime and now = 5000 and t = ?far
      and randomUUID = "\<lambda>k. ''id''" and toISOString = "\<lambda>k. ''now''" and user = sample_user
      and notifications = "[]" and s = "fresh_run (sample_notification_store Missing)",
      THEN conjunct2, THEN conjunct2, THEN conjunct2, THEN mp, OF h2]
  from h1 a h2 [THEN conjunct1] h2 [THEN conjunct2] b show ?thesis
    by (intro conjI)
qed

section \<open>Registration and login\<close>

lemma find_None_list_ex: "find P xs = None \<longleftrightarrow> \<not> list_ex P xs"
  by (auto simp: find_None_iff list_ex_iff)

lemma credentials_match_iff:
  "credentials_match c r \<longleftrightarrow> (\<exists>un pw. c = Some (un, Some pw) \<and> username r = un \<and> password r = pw)"
  by (auto simp: credentials_match_def split: option.splits)

lemma login_password_path:
  "p \<noteq> ''google'' \<Longrightarrow> p \<noteq> ''github'' \<Longrightarrow>
   login st p c =
     (case find (credentials_match c) (getSafeUsers st) of
        None \<Rightarrow> Inl InvalidCredentials
      | Some r \<Rightarrow> Inr \<lparr>user_id = su_id r, name = su_name r, email = su_email r,
                         avatar = su_avatar r, provider = Credentials\<rparr>)"
  by (simp add: login_def Let_def)

lemma register_result:
  "register st now u p =
     (if list_ex (\<lambda>r. username r = u) (getSafeUsers st) then Inl UsernameTaken
      else Inr (st\<lparr>users_db := Array (getSafeUsers st @
                   [\<lparr>su_id = ''user_cred_'' @ show_int now, username = u, password = p,
                     su_name = u, su_email = u @ ''@example.com'',
                     su_avatar = Some (''https://ui-avatars.com/api/?name='' @ u
                                       @ ''&background=random&color=fff&background=6366f1''),
                     su_provider = Credentials\<rparr>])\<rparr>,
                \<lparr>user_id = ''user_cred_'' @ show_int now, name = u, email = u @ ''@example.com'',
                 avatar = Some (''https://ui-avatars.com/api/?name='' @ u
                                @ ''&background=random&color=fff&background=6366f1''),
                 provider = Credentials\<rparr>))"
  by (simp add: register_def Let_def find_None_list_ex)

text \<open>
  Claim C8. \<^verbatim>\<open>register\<close> fails exactly when a stored credential record has the
  user name, and its failure is the duplicate-username condition; otherwise it returns
  the public view of the new user, which is the same for every password. \<^verbatim>\<open>login\<close>
  with the provider \<^verbatim>\<open>credentials\<close> fails, with the invalid-credentials condition,
  exactly when no stored record has both the user name and the password of the
  credentials; otherwise it returns the public fields of the first such record. The type
  of the result has no field for the secret.
\<close>

theorem register_login_conditions:
  "(isl (register st now u p) \<longleftrightarrow> list_ex (\<lambda>r. username r = u) (getSafeUsers st)) \<and>
   (isl (register st now u p) \<longrightarrow> register st now u p = Inl UsernameTaken) \<and>
   (\<not> isl (register st now u p) \<longrightarrow>
      map_sum id snd (register st now u p) =
        Inr \<lparr>user_id = ''user_cred_'' @ show_int now, name = u, email = u @ ''@example.com'',
             avatar = Some (''https://ui-avatars.com/api/?name='' @ u
                            @ ''&background=random&color=fff&background=6366f1''),
             provider = Credentials\<rparr>) \<and>
   map_sum id snd (register st now u p) = map_sum id snd (register st now u p') \<and>
   (isl (login st ''credentials'' c) \<longleftrightarrow>
      \<not> (\<exists>r \<in> set (getSafeUsers st). \<exists>un pw. c = Some (un, Some pw) \<and> username r = un \<and> password r = pw)) \<and>
   (isl (login st ''credentials'' c) \<longrightarrow> login st ''credentials'' c = Inl InvalidCredentials) \<and>
   (\<forall>r. find (credentials_match c) (getSafeUsers st) = Some r \<longrightarrow>
      login st ''credentials'' c =
        Inr \<lparr>user_id = su_id r, name = su_name r, email = su_email r,
             avatar = su_avatar r, provider = Credentials\<rparr>)"
proof -
  have path: "login st ''credentials'' c =
     (case find (credentials_match c) (getSafeUsers st) of
        None \<Rightarrow> Inl InvalidCredentials
      | Some r \<Rightarrow> Inr \<lparr>user_id = su_id r, name = su_name r, email = su_email r,
                         avatar = su_avatar r, provider = Credentials\<rparr>)"
    by (rule login_password_path) simp_all
  have none_iff: "find (credentials_match c) (getSafeUsers st) = None \<longleftrightarrow>
      \<not> (\<exists>r \<in> set (getSafeUsers st). \<exists>un pw. c = Some (un, Some pw) \<and> username r = un \<and> password r = pw)"
    by (auto simp: find_None_iff credentials_match_iff)
  have l1: "isl (login st ''credentials'' c) \<longleftrightarrow>
      \<not> (\<exists>r \<in> set (getSafeUsers st). \<exists>un pw. c = Some (un, Some pw) \<and> username r = un \<and> password r = pw)"
    unfolding none_iff [symmetric] path by (simp split: option.splits)
  have l2: "isl (login st ''credentials'' c) \<longrightarrow> login st ''credentials'' c = Inl InvalidCredentials"
    unfolding path by (simp split: option.splits)
  have l3: "\<forall>r. find (credentials_match c) (getSafeUsers st) = Some r \<longrightarrow>
      login st ''credentials'' c =
        Inr \<lparr>user_id = su_id r, name = su_name r, email = su_email r,
             avatar = su_avatar r, provider = Credentials\<rparr>"
    unfolding path by simp
  have r1: "isl (register st now u p) \<longleftrightarrow> list_ex (\<lambda>r. username r = u) (getSafeUsers st)"
    by (simp add: register_result)
  have r2: "isl (register st now u p) \<longrightarrow> register st now u p = Inl UsernameTaken"
    by (simp add: register_result)
  have r3: "\<not> isl (register st now u p) \<longrightarrow>
      map_sum id snd (register st now u p) =
        Inr \<lparr>user_id = ''user_cred_'' @ show_int now, name = u, email = u @ ''@example.com'',
             avatar = Some (''https://ui-avatars.com/api/?name='' @ u
                            @ ''&background=random&color=fff&background=6366f1''),
             provider = Credentials\<rparr>"
    by (simp add: register_result)
  have r4: "map_sum id snd (register st now u p) = map_sum id snd (register st now u p')"
    by (simp add: register_result)
  from r1 r2 r3 r4 l1 l2 l3 show ?thesis
    by (intro conjI)
qed

theorem register_login_conditions_witness:
  "isl (register (sample_users_store (Array [sample_alice])) 2 ''alice'' ''pw2'') \<and>
   register (sample_users_store (Array [sample_alice])) 2 ''alice'' ''pw2'' = Inl UsernameTaken \<and>
   isl (login (sample_users_store (Array [sample_alice])) ''credentials'' (Some (''alice'', Some ''wrong''))) \<and>
   login (sample_users_store (Array [sample_alice])) ''credentials'' (Some (''alice'', Some ''wrong''))
     = Inl InvalidCredentials \<and>
   find (credentials_match (Some (''alice'', Some ''pw1''))) (getSafeUsers (sample_users_store (Array [sample_alice])))
     = Some sample_alice \<and>
   login (sample_users_store (Array [sample_alice])) ''credentials'' (Some (''alice'', Some ''pw1''))
     = Inr \<lparr>user_id = su_id sample_alice, name = su_name sample_alice, email = su_email sample_alice,
            avatar = su_avatar sample_alice, provider = Credentials\<rparr>"
proof -
  let ?st = "sample_users_store (Array [sample_alice])"
  have users: "getSafeUsers ?st = [sample_alice]"
    by (simp add: getSafeUsers_def sample_users_store_def)
  have h1: "list_ex (\<lambda>r. username r = ''alice'') (getSafeUsers ?st)"
    unfolding users by (simp add: sample_alice_def)
  have h2: "\<not> (\<exists>r \<in> set (getSafeUsers ?st). \<exists>un pw.
        Some (''alice'', Some ''wrong'') = Some (un, Some pw) \<and> username r = un \<and> password r = pw)"
    unfolding users by (simp add: sample_alice_def)
  have h3: "find (credentials_match (Some (''alice'', Some ''pw1''))) (getSafeUsers ?st) = Some sample_alice"
    unfolding users by (simp add: credentials_match_def sample_alice_def)
  note reg = register_login_conditions [where st = ?st and now = 2 and u = "''alice''" and p = "''pw2''"]
  note bad = register_login_conditions [where st = ?st and c = "Some (''alice'', Some ''wrong'')"]
  note good = register_login_conditions [where st = ?st and c = "Some (''alice'', Some ''pw1'')"]
  note a1 = reg [THEN conjunct1, THEN iffD2, OF h1]
  note a2 = reg [THEN conjunct2, THEN conjunct1, THEN mp, OF a1]
  note b1 = bad [THEN conjunct2, THEN conjunct2, THEN conjunct2, THEN conjunct2, THEN conjunct1,
      THEN iffD2, OF h2]
  note b2 = bad [THEN conjunct2, THEN conjunct2, THEN conjunct2, THEN conjunct2, THEN conjunct2,
      THEN conjunct1, THEN mp, OF b1]
  note c1 = good [THEN conjunct2, THEN conjunct2, THEN conjunct2, THEN conjunct2, THEN conjunct2,
      THEN conjunct2, THEN spec, THEN mp, OF h3]
  from a1 a2 b1 b2 h3 c1 show ?thesis
    by (intro conjI)
qed

text \<open>
  Claim C10. With a provider string other than \<^verbatim>\<open>google\<close> and \<^verbatim>\<open>github\<close>,
  \<^verbatim>\<open>login\<close> does what it does for \<^verbatim>\<open>credentials\<close>: it returns the public fields
  of the first stored record that matches the credentials, or fails with the
  invalid-credentials condition; it has no other failure.
\<close>

theorem login_any_other_provider:
  assumes "p \<noteq> ''google''" and "p \<noteq> ''github''"
  shows "login st p c = login st ''credentials'' c \<and>
         login st p c =
           (case find (credentials_match c) (getSafeUsers st) of
              None \<Rightarrow> Inl InvalidCredentials
            | Some r \<Rightarrow> Inr \<lparr>user_id = su_id r, name = su_name r, email = su_email r,
                               avatar = su_avatar r, provider = Credentials\<rparr>) \<and>
         (isl (login st p c) \<longrightarrow> login st p c = Inl InvalidCredentials)"
proof -
  have a: "login st p c =
           (case find (credentials_match c) (getSafeUsers st) of
              None \<Rightarrow> Inl InvalidCredentials
            | Some r \<Rightarrow> Inr \<lparr>user_id = su_id r, name = su_name r, email = su_email r,
                               avatar = su_avatar r, provider = Credentials\<rparr>)"
    using assms by (rule login_password_path)
  have b: "login st ''credentials'' c =
           (case find (credentials_match c) (getSafeUsers st) of
              None \<Rightarrow> Inl InvalidCredentials
            | Some r \<Rightarrow> Inr \<lparr>user_id = su_id r, name = su_name r, email = su_email r,
                               avatar = su_avatar r, provider = Credentials\<rparr>)"
    by (rule login_password_path) simp_all
  have c: "isl (login st p c) \<longrightarrow> login st p c = Inl InvalidCredentials"
    unfolding a by (simp split: option.splits)
  from a b c show ?thesis by simp
qed

theorem login_any_other_provider_witness:
  "''facebook'' \<noteq> ''google'' \<and> ''facebook'' \<noteq> ''github'' \<and>
   login (sample_users_store (Array [sample_alice])) ''facebook'' (Some (''alice'', Some ''pw1''))
     = login (sample_users_store (Array [sample_alice])) ''credentials'' (Some (''alice'', Some ''pw1'')) \<and>
   login (sample_users_store Unparsable) '''' None = Inl InvalidCredentials"
proof -
  have h1: "''facebook'' \<noteq> ''google''" and h2: "''facebook'' \<noteq> ''github''"
    by simp_all
  have h3: "'''' \<noteq> ''google''" and h4: "'''' \<noteq> ''github''"
    by simp_all
  note a = login_any_other_provider [OF h1 h2, where st = "sample_users_store (Array [sample_alice])"
      and c = "Some (''alice'', Some ''pw1'')", THEN conjunct1]
  have "isl (login (sample_users_store Unparsable) '''' None)"
    by (simp add: login_def getSafeUsers_def sample_users_store_def Let_def)
  with login_any_other_provider [OF h3 h4, where st = "sample_users_store Unparsable" and c = None,
      THEN conjunct2, THEN conjunct2]
  have b: "login (sample_users_store Unparsable) '''' None = Inl InvalidCredentials"
    by (rule mp)
  from h1 h2 a b show ?thesis
    by (intro conjI)
qed

section \<open>Ownership of stored tasks\<close>

lemma loadAllTasks_deleteTask:
  "loadAllTasks (deleteTask st i) = filter (\<lambda>t. task_id t \<noteq> i) (loadAllTasks st)"
  by (simp add: deleteTask_def loadAllTasks_def split: blob.splits)

lemma loadAllTasks_deleteAllTasks:
  "loadAllTasks (deleteAllTasks st u) = filter (\<lambda>t. task_userId t \<noteq> u) (loadAllTasks st)"
  by (simp add: deleteAllTasks_def loadAllTasks_def split: blob.splits)

lemma loadAllTasks_addNotification: "loadAllTasks (addNotification st n) = loadAllTasks st"
  by (cases "notifications_db st") (simp_all add: addNotification_def loadAllTasks_def Let_def)

lemma loadAllTasks_markNotificationRead: "loadAllTasks (markNotificationRead st i) = loadAllTasks st"
  by (cases "notifications_db st") (simp_all add: markNotificationRead_def loadAllTasks_def Let_def)

lemma loadAllTasks_markAllNotificationsRead:
  "loadAllTasks (markAllNotificationsRead st u) = loadAllTasks st"
  by (cases "notifications_db st") (simp_all add: markAllNotificationsRead_def loadAllTasks_def Let_def)

lemma loadAllTasks_register:
  "loadAllTasks (case register st now u p of Inl e \<Rightarrow> st | Inr r \<Rightarrow> fst r) = loadAllTasks st"
  by (simp add: register_def Let_def loadAllTasks_def)

lemma owner_stable_iff:
  "owner_stable st st' \<longleftrightarrow>
     (\<forall>s' \<in> set (loadAllTasks st').
        (\<exists>s \<in> set (loadAllTasks st). task_id s = task_id s') \<longrightarrow>
        (\<exists>s \<in> set (loadAllTasks st). task_id s = task_id s' \<and> task_userId s = task_userId s'))"
  by (auto simp: owner_stable_def list_all_iff list_ex_iff)

lemma owner_stable_subset:
  "set (loadAllTasks st') \<subseteq> set (loadAllTasks st) \<Longrightarrow> owner_stable st st'"
  by (auto simp: owner_stable_iff)

lemma owner_stable_saveTask:
  assumes "keeps_owner st (SaveTask t)"
  shows "owner_stable st (fst (saveTask st t))"
proof -
  let ?ts = "loadAllTasks st"
  from assms have keep: "\<forall>s \<in> set ?ts. task_id s = task_id t \<longrightarrow> task_userId s = task_userId t"
    by (auto simp: keeps_owner_def list_all_iff)
  have new: "set (loadAllTasks (fst (saveTask st t))) \<subseteq> insert t (set ?ts)"
    by (auto simp: loadAllTasks_saveTask dest: set_update_subset_insert [THEN subsetD])
  show ?thesis
    unfolding owner_stable_iff
  proof (intro ballI impI)
    fix s'
    assume s': "s' \<in> set (loadAllTasks (fst (saveTask st t)))"
      and ex: "\<exists>s \<in> set ?ts. task_id s = task_id s'"
    from s' new have "s' = t \<or> s' \<in> set ?ts" by auto
    then show "\<exists>s \<in> set ?ts. task_id s = task_id s' \<and> task_userId s = task_userId s'"
    proof
      assume "s' = t"
      with ex keep show ?thesis by auto
    next
      assume "s' \<in> set ?ts"
      then show ?thesis by auto
    qed
  qed
qed

lemma owner_stable_perform: "keeps_owner st op \<Longrightarrow> owner_stable st (perform st op)"
proof (cases op)
  case (SaveTask t)
  assume "keeps_owner st op"
  with SaveTask show ?thesis
    by (simp add: owner_stable_saveTask)
next
  case (Register now u p)
  show ?thesis
    unfolding Register perform.simps
    by (rule owner_stable_subset) (simp add: loadAllTasks_register)
qed (auto intro!: owner_stable_subset
       simp: loadAllTasks_deleteTask loadAllTasks_deleteAllTasks loadAllTasks_addNotification
         loadAllTasks_markNotificationRead loadAllTasks_markAllNotificationsRead)

lemma owner_stable_along_perform:
  "keeps_owner_all st ops \<Longrightarrow> owner_stable_along st ops"
proof (induction ops arbitrary: st)
  case Nil
  show ?case by simp
next
  case (Cons op ops)
  from Cons.prems have "keeps_owner st op" and "keeps_owner_all (perform st op) ops"
    by simp_all
  with Cons.IH show ?case
    by (simp add: owner_stable_perform)
qed

text \<open>
  Claim C9, as amended. The owner of a stored task is kept by every operation of the
  storage service other than \<^verbatim>\<open>saveTask\<close>, and by \<^verbatim>\<open>saveTask(t)\<close> when every
  stored entry with the id of \<open>t\<close> has the user id of \<open>t\<close> (the service does not
  check this): along every sequence of such operations, a task whose id was stored before
  a step has, after the step, the owner of an entry that had this id.
\<close>

theorem owner_kept_by_service:
  "(keeps_owner_all st ops \<longrightarrow> owner_stable_along st ops) \<and>
   (keeps_owner st op \<longrightarrow>
      (\<forall>s' \<in> set (loadAllTasks (perform st op)).
          (\<exists>s \<in> set (loadAllTasks st). task_id s = task_id s') \<longrightarrow>
          (\<exists>s \<in> set (loadAllTasks st). task_id s = task_id s' \<and> task_userId s = task_userId s'))) \<and>
   ((\<forall>t. op \<noteq> SaveTask t) \<longrightarrow> keeps_owner st op) \<and>
   (keeps_owner st (SaveTask t) \<longleftrightarrow>
      (\<forall>s \<in> set (loadAllTasks st). task_id s = task_id t \<longrightarrow> task_userId s = task_userId t))"
proof (intro conjI impI)
  assume "keeps_owner_all st ops"
  then show "owner_stable_along st ops"
    by (rule owner_stable_along_perform)
next
  assume "keeps_owner st op"
  then have "owner_stable st (perform st op)"
    by (rule owner_stable_perform)
  then show "\<forall>s' \<in> set (loadAllTasks (perform st op)).
          (\<exists>s \<in> set (loadAllTasks st). task_id s = task_id s') \<longrightarrow>
          (\<exists>s \<in> set (loadAllTasks st). task_id s = task_id s' \<and> task_userId s = task_userId s')"
    by (simp only: owner_stable_iff)
next
  assume "\<forall>t. op \<noteq> SaveTask t"
  then show "keeps_owner st op"
    by (cases op) (simp_all add: keeps_owner_def)
next
  show "keeps_owner st (SaveTask t) \<longleftrightarrow>
      (\<forall>s \<in> set (loadAllTasks st). task_id s = task_id t \<longrightarrow> task_userId s = task_userId t)"
    by (auto simp: keeps_owner_def list_all_iff)
qed

theorem owner_kept_by_service_witness:
  "keeps_owner_all (sample_store [sample_task ''t0'' ''ann'' Pending ''d0'', sample_task ''t1'' ''bob'' Pending ''d1''])
     [SaveTask (sample_task ''t0'' ''ann'' Done ''d2''), DeleteAllTasks ''bob'',
      SaveTask (sample_task ''t1'' ''ann'' Pending ''d3'')] \<and>
   owner_stable_along (sample_store [sample_task ''t0'' ''ann'' Pending ''d0'', sample_task ''t1'' ''bob'' Pending ''d1''])
     [SaveTask (sample_task ''t0'' ''ann'' Done ''d2''), DeleteAllTasks ''bob'',
      SaveTask (sample_task ''t1'' ''ann'' Pending ''d3'')]"
proof -
  have h: "keeps_owner_all (sample_store [sample_task ''t0'' ''ann'' Pending ''d0'', sample_task ''t1'' ''bob'' Pending ''d1''])
     [SaveTask (sample_task ''t0'' ''ann'' Done ''d2''), DeleteAllTasks ''bob'',
      SaveTask (sample_task ''t1'' ''ann'' Pending ''d3'')]"
    by (simp add: keeps_owner_def saveTask_def deleteAllTasks_def loadAllTasks_def sample_store_def
          sample_task_def Let_def)
  from h owner_kept_by_service [THEN conjunct1, THEN mp, OF h] show ?thesis
    by (intro conjI)
qed

text \<open>
  The claim as it stands fails: \<^verbatim>\<open>saveTask\<close> looks for the id only, so a task
  saved under a stored id with another user id replaces the entry and its owner.
\<close>

theorem saveTask_changes_owner_counterexample:
  "loadAllTasks (sample_store [sample_task ''t0'' ''ann'' Pending ''d0''])
     = [sample_task ''t0'' ''ann'' Pending ''d0''] \<and>
   loadAllTasks (perform (sample_store [sample_task ''t0'' ''ann'' Pending ''d0''])
                   (SaveTask (sample_task ''t0'' ''bob'' Pending ''d0'')))
     = [sample_task ''t0'' ''bob'' Pending ''d0''] \<and>
   task_id (sample_task ''t0'' ''bob'' Pending ''d0'') = task_id (sample_task ''t0'' ''ann'' Pending ''d0'') \<and>
   task_userId (sample_task ''t0'' ''bob'' Pending ''d0'') \<noteq> task_userId (sample_task ''t0'' ''ann'' Pending ''d0'') \<and>
   getTasks (perform (sample_store [sample_task ''t0'' ''ann'' Pending ''d0''])
                   (SaveTask (sample_task ''t0'' ''bob'' Pending ''d0''))) ''ann'' = []"
  by (simp add: saveTask_def getTasks_def loadAllTasks_def sample_store_def sample_task_def Let_def)

section \<open>Sorting\<close>

subsection \<open>Consistent comparators\<close>

lemma consistent_props:
  assumes "consistent cmp S"
  shows "\<forall>a \<in> S. sortCompare cmp a a = 0"
    and "\<forall>a \<in> S. \<forall>b \<in> S. sortCompare cmp a b = 0 \<longrightarrow> sortCompare cmp b a = 0"
    and "\<forall>a \<in> S. \<forall>b \<in> S. sortCompare cmp a b < 0 \<longrightarrow> sortCompare cmp b a > 0"
    and "\<forall>a \<in> S. \<forall>b \<in> S. \<forall>c \<in> S.
         sortCompare cmp a b = 0 \<longrightarrow> sortCompare cmp b c = 0 \<longrightarrow> sortCompare cmp a c = 0"
    and "\<forall>a \<in> S. \<forall>b \<in> S. \<forall>c \<in> S.
         sortCompare cmp a b < 0 \<longrightarrow> sortCompare cmp b c < 0 \<longrightarrow> sortCompare cmp a c < 0"
    and "\<forall>a \<in> S. \<forall>b \<in> S. \<forall>c \<in> S.
         sortCompare cmp a b > 0 \<longrightarrow> sortCompare cmp b c > 0 \<longrightarrow> sortCompare cmp a c > 0"
proof -
  note c = assms [unfolded consistent_def]
  show "\<forall>a \<in> S. sortCompare cmp a a = 0"
    using c by (elim conjE)
  show "\<forall>a \<in> S. \<forall>b \<in> S. sortCompare cmp a b = 0 \<longrightarrow> sortCompare cmp b a = 0"
    using c by (elim conjE)
  show "\<forall>a \<in> S. \<forall>b \<in> S. sortCompare cmp a b < 0 \<longrightarrow> sortCompare cmp b a > 0"
    using c by (elim conjE)
  show "\<forall>a \<in> S. \<forall>b \<in> S. \<forall>c \<in> S.
         sortCompare cmp a b = 0 \<longrightarrow> sortCompare cmp b c = 0 \<longrightarrow> sortCompare cmp a c = 0"
    using c by (elim conjE)
  show "\<forall>a \<in> S. \<forall>b \<in> S. \<forall>c \<in> S.
         sortCompare cmp a b < 0 \<longrightarrow> sortCompare cmp b c < 0 \<longrightarrow> sortCompare cmp a c < 0"
    using c by (elim conjE)
  show "\<forall>a \<in> S. \<forall>b \<in> S. \<forall>c \<in> S.
         sortCompare cmp a b > 0 \<longrightarrow> sortCompare cmp b c > 0 \<longrightarrow> sortCompare cmp a c > 0"
    using c by (elim conjE)
qed

lemma consistent_refl: "consistent cmp S \<Longrightarrow> a \<in> S \<Longrightarrow> sortCompare cmp a a = 0"
  using consistent_props(1) [of cmp S] by blast

lemma consistent_sym:
  "consistent cmp S \<Longrightarrow> a \<in> S \<Longrightarrow> b \<in> S \<Longrightarrow> sortCompare cmp a b = 0 \<Longrightarrow> sortCompare cmp b a = 0"
  using consistent_props(2) [of cmp S] by blast

lemma consistent_flip_lt:
  "consistent cmp S \<Longrightarrow> a \<in> S \<Longrightarrow> b \<in> S \<Longrightarrow> sortCompare cmp a b < 0 \<Longrightarrow> sortCompare cmp b a > 0"
  using consistent_props(3) [of cmp S] by blast

lemma consistent_trans_eq:
  "consistent cmp S \<Longrightarrow> a \<in> S \<Longrightarrow> b \<in> S \<Longrightarrow> c \<in> S \<Longrightarrow>
   sortCompare cmp a b = 0 \<Longrightarrow> sortCompare cmp b c = 0 \<Longrightarrow> sortCompare cmp a c = 0"
  using consistent_props(4) [of cmp S] by blast

lemma consistent_trans_lt:
  "consistent cmp S \<Longrightarrow> a \<in> S \<Longrightarrow> b \<in> S \<Longrightarrow> c \<in> S \<Longrightarrow>
   sortCompare cmp a b < 0 \<Longrightarrow> sortCompare cmp b c < 0 \<Longrightarrow> sortCompare cmp a c < 0"
  using consistent_props(5) [of cmp S] by blast

lemma consistent_trans_gt:
  "consistent cmp S \<Longrightarrow> a \<in> S \<Longrightarrow> b \<in> S \<Longrightarrow> c \<in> S \<Longrightarrow>
   sortCompare cmp a b > 0 \<Longrightarrow> sortCompare cmp b c > 0 \<Longrightarrow> sortCompare cmp a c > 0"
  using consistent_props(6) [of cmp S] by blast

lemma consistent_subset:
  assumes "consistent cmp S" and "T \<subseteq> S"
  shows "consistent cmp T"
  unfolding consistent_def
proof (intro conjI)
  show "\<forall>a \<in> T. sortCompare cmp a a = 0"
    using consistent_props(1) [OF assms(1)] assms(2) by blast
  show "\<forall>a \<in> T. \<forall>b \<in> T. sortCompare cmp a b = 0 \<longrightarrow> sortCompare cmp b a = 0"
    using consistent_props(2) [OF assms(1)] assms(2) by blast
  show "\<forall>a \<in> T. \<forall>b \<in> T. sortCompare cmp a b < 0 \<longrightarrow> sortCompare cmp b a > 0"
    using consistent_props(3) [OF assms(1)] assms(2) by blast
  show "\<forall>a \<in> T. \<forall>b \<in> T. \<forall>c \<in> T.
         sortCompare cmp a b = 0 \<longrightarrow> sortCompare cmp b c = 0 \<longrightarrow> sortCompare cmp a c = 0"
    using consistent_props(4) [OF assms(1)] assms(2) by blast
  show "\<forall>a \<in> T. \<forall>b \<in> T. \<forall>c \<in> T.
         sortCompare cmp a b < 0 \<longrightarrow> sortCompare cmp b c < 0 \<longrightarrow> sortCompare cmp a c < 0"
    using consistent_props(5) [OF assms(1)] assms(2) by blast
  show "\<forall>a \<in> T. \<forall>b \<in> T. \<forall>c \<in> T.
         sortCompare cmp a b > 0 \<longrightarrow> sortCompare cmp b c > 0 \<longrightarrow> sortCompare cmp a c > 0"
    using consistent_props(6) [OF assms(1)] assms(2) by blast
qed


lemma consistent_flip_gt:
  assumes "consistent cmp S" "a \<in> S" "b \<in> S" "sortCompare cmp a b > 0"
  shows "sortCompare cmp b a < 0"
proof (rule ccontr)
  assume "\<not> sortCompare cmp b a < 0"
  then consider "sortCompare cmp b a = 0" | "sortCompare cmp b a > 0" by linarith
  then show False
  proof cases
    case 1
    with assms consistent_sym [of cmp S b a] show False by simp
  next
    case 2
    with assms consistent_trans_gt [of cmp S a b a] consistent_refl [of cmp S a]
    show False by simp
  qed
qed

lemma consistent_le_trans:
  assumes c: "consistent cmp S" and S: "a \<in> S" "b \<in> S" "c \<in> S"
    and ab: "sortCompare cmp a b \<le> 0" and bc: "sortCompare cmp b c \<le> 0"
  shows "sortCompare cmp a c \<le> 0"
proof (rule ccontr)
  assume "\<not> sortCompare cmp a c \<le> 0"
  then have ac: "sortCompare cmp a c > 0" by simp
  with c S have ca: "sortCompare cmp c a < 0"
    by (intro consistent_flip_gt)
  consider "sortCompare cmp a b < 0" | "sortCompare cmp a b = 0" "sortCompare cmp b c < 0"
    | "sortCompare cmp a b = 0" "sortCompare cmp b c = 0"
    using ab bc by linarith
  then show False
  proof cases
    case 1
    from c S(3) S(1) S(2) ca 1 have "sortCompare cmp c b < 0"
      by (rule consistent_trans_lt)
    with c S have "sortCompare cmp b c > 0"
      by (intro consistent_flip_lt)
    with bc show False by simp
  next
    case 2
    from c S(2) S(3) S(1) 2(2) ca have "sortCompare cmp b a < 0"
      by (rule consistent_trans_lt)
    moreover from c S(1) S(2) 2(1) have "sortCompare cmp b a = 0"
      by (rule consistent_sym)
    ultimately show False by simp
  next
    case 3
    from c S 3 have "sortCompare cmp a c = 0"
      by (rule consistent_trans_eq)
    with ac show False by simp
  qed
qed

lemma consistent_class:
  assumes c: "consistent cmp S" and S: "x \<in> S" "a \<in> S" "b \<in> S"
    and xa: "sortCompare cmp x a = 0" and xb: "sortCompare cmp x b = 0"
  shows "sortCompare cmp a b = 0"
proof -
  from c S(1) S(2) xa have "sortCompare cmp a x = 0"
    by (rule consistent_sym)
  with c S(2) S(1) S(3) show ?thesis
    using xb by (rule consistent_trans_eq)
qed

subsection \<open>The insertion sort meets the contract\<close>

lemma mset_insert_by: "mset (insert_by cmp x ys) = add_mset x (mset ys)"
  by (induction ys) simp_all

lemma set_insert_by: "set (insert_by cmp x ys) = insert x (set ys)"
  using mset_insert_by [of cmp x ys] by (metis set_mset_add_mset_insert set_mset_mset)

lemma insertion_sort_Cons: "insertion_sort cmp (x # xs) = insert_by cmp x (insertion_sort cmp xs)"
  by (simp add: insertion_sort_def)

lemma mset_insertion_sort: "mset (insertion_sort cmp xs) = mset xs"
  by (induction xs) (simp_all add: insertion_sort_def mset_insert_by)

lemma set_insertion_sort: "set (insertion_sort cmp xs) = set xs"
  using mset_insertion_sort [of cmp xs] by (metis set_mset_mset)

lemma sorted_insert_by:
  assumes c: "consistent cmp S" and x: "x \<in> S"
  shows "set ys \<subseteq> S \<Longrightarrow> sorted_wrt (\<lambda>a b. sortCompare cmp a b \<le> 0) ys \<Longrightarrow>
         sorted_wrt (\<lambda>a b. sortCompare cmp a b \<le> 0) (insert_by cmp x ys)"
proof (induction ys)
  case Nil
  show ?case by simp
next
  case (Cons y ys)
  from Cons.prems have y: "y \<in> S" and ys: "set ys \<subseteq> S"
    and head: "\<forall>z \<in> set ys. sortCompare cmp y z \<le> 0"
    and tail: "sorted_wrt (\<lambda>a b. sortCompare cmp a b \<le> 0) ys"
    by simp_all
  show ?case
  proof (cases "sortCompare cmp x y > 0")
    case True
    with c x y have "sortCompare cmp y x < 0"
      by (intro consistent_flip_gt)
    with head have "\<forall>z \<in> set (insert_by cmp x ys). sortCompare cmp y z \<le> 0"
      by (auto simp: set_insert_by)
    with True Cons.IH [OF ys tail] show ?thesis by simp
  next
    case False
    then have xy: "sortCompare cmp x y \<le> 0" by simp
    have "\<forall>z \<in> set ys. sortCompare cmp x z \<le> 0"
    proof
      fix z assume z: "z \<in> set ys"
      with ys have zS: "z \<in> S" by auto
      from head z have yz: "sortCompare cmp y z \<le> 0" by simp
      from c x y zS xy yz show "sortCompare cmp x z \<le> 0"
        by (rule consistent_le_trans)
    qed
    with False xy head tail show ?thesis by simp
  qed
qed

lemma sorted_insertion_sort:
  "consistent cmp (set xs) \<Longrightarrow> sorted_wrt (\<lambda>a b. sortCompare cmp a b \<le> 0) (insertion_sort cmp xs)"
proof (induction xs)
  case Nil
  show ?case by (simp add: insertion_sort_def)
next
  case (Cons x xs)
  from Cons.prems have "consistent cmp (set xs)"
    by (rule consistent_subset) auto
  with Cons.IH have tail: "sorted_wrt (\<lambda>a b. sortCompare cmp a b \<le> 0) (insertion_sort cmp xs)"
    by simp
  have sub: "set (insertion_sort cmp xs) \<subseteq> set (x # xs)"
    by (auto simp: set_insertion_sort)
  have x: "x \<in> set (x # xs)" by simp
  from sorted_insert_by [OF Cons.prems x sub tail] show ?case
    by (simp only: insertion_sort_Cons)
qed

lemma filter_insert_by_neg: "\<not> P x \<Longrightarrow> filter P (insert_by cmp x ys) = filter P ys"
  by (induction ys) simp_all

lemma filter_insert_by_pos:
  "P x \<Longrightarrow> \<forall>y \<in> set ys. P y \<longrightarrow> sortCompare cmp x y \<le> 0 \<Longrightarrow>
   filter P (insert_by cmp x ys) = x # filter P ys"
  by (induction ys) auto

lemma insertion_sort_stable:
  "(\<And>a b. a \<in> set xs \<Longrightarrow> b \<in> set xs \<Longrightarrow> P a \<Longrightarrow> P b \<Longrightarrow> sortCompare cmp a b \<le> 0) \<Longrightarrow>
   filter P (insertion_sort cmp xs) = filter P xs"
proof (induction xs)
  case Nil
  show ?case by (simp add: insertion_sort_def)
next
  case (Cons x xs)
  have IH: "filter P (insertion_sort cmp xs) = filter P xs"
    by (rule Cons.IH) (auto intro: Cons.prems)
  show ?case
  proof (cases "P x")
    case True
    have "\<forall>y \<in> set (insertion_sort cmp xs). P y \<longrightarrow> sortCompare cmp x y \<le> 0"
      using True by (auto simp: set_insertion_sort intro: Cons.prems)
    with True have "filter P (insert_by cmp x (insertion_sort cmp xs)) = x # filter P (insertion_sort cmp xs)"
      by (rule filter_insert_by_pos)
    with True IH show ?thesis
      by (simp add: insertion_sort_Cons)
  next
    case False
    with IH show ?thesis
      by (simp add: insertion_sort_Cons filter_insert_by_neg)
  qed
qed

lemma sort_conforms_insertion_sort: "sort_conforms insertion_sort"
  unfolding sort_conforms_def
proof (intro conjI allI impI ballI)
  fix cmp :: "'a \<Rightarrow> 'a \<Rightarrow> int option" and xs
  show "mset (insertion_sort cmp xs) = mset xs"
    by (rule mset_insertion_sort)
next
  fix cmp :: "'a \<Rightarrow> 'a \<Rightarrow> int option" and xs
  assume "consistent cmp (set xs)"
  then show "sorted_wrt (\<lambda>a b. sortCompare cmp a b \<le> 0) (insertion_sort cmp xs)"
    by (rule sorted_insertion_sort)
next
  fix cmp :: "'a \<Rightarrow> 'a \<Rightarrow> int option" and xs x
  assume c: "consistent cmp (set xs)" and x: "x \<in> set xs"
  show "filter (\<lambda>y. sortCompare cmp x y = 0) (insertion_sort cmp xs)
        = filter (\<lambda>y. sortCompare cmp x y = 0) xs"
  proof (rule insertion_sort_stable)
    fix a b
    assume a: "a \<in> set xs" and b: "b \<in> set xs"
      and xa: "sortCompare cmp x a = 0" and xb: "sortCompare cmp x b = 0"
    from c x a b xa xb have "sortCompare cmp a b = 0"
      by (rule consistent_class)
    then show "sortCompare cmp a b \<le> 0" by simp
  qed
qed

subsection \<open>What every conforming sort function gives\<close>

lemma sort_conforms_mset:
  assumes "sort_conforms arraySort"
  shows "mset (arraySort cmp xs) = mset xs"
proof -
  from assms have "\<forall>cmp xs. mset (arraySort cmp xs) = mset xs"
    unfolding sort_conforms_def by (rule conjunct1)
  then show ?thesis by (elim allE)
qed

lemma sort_conforms_set: "sort_conforms arraySort \<Longrightarrow> set (arraySort cmp xs) = set xs"
  using sort_conforms_mset [of arraySort cmp xs] by (metis set_mset_mset)

lemma sort_conforms_consistent:
  assumes "sort_conforms arraySort" and "consistent cmp (set xs)"
  shows "sorted_wrt (\<lambda>a b. sortCompare cmp a b \<le> 0) (arraySort cmp xs)"
    and "x \<in> set xs \<Longrightarrow>
         filter (\<lambda>y. sortCompare cmp x y = 0) (arraySort cmp xs) = filter (\<lambda>y. sortCompare cmp x y = 0) xs"
proof -
  from assms(1) have "\<forall>cmp xs. consistent cmp (set xs) \<longrightarrow>
        sorted_wrt (\<lambda>a b. sortCompare cmp a b \<le> 0) (arraySort cmp xs) \<and>
        (\<forall>x \<in> set xs. filter (\<lambda>y. sortCompare cmp x y = 0) (arraySort cmp xs)
                         = filter (\<lambda>y. sortCompare cmp x y = 0) xs)"
    unfolding sort_conforms_def by (rule conjunct2)
  then have "consistent cmp (set xs) \<longrightarrow>
        sorted_wrt (\<lambda>a b. sortCompare cmp a b \<le> 0) (arraySort cmp xs) \<and>
        (\<forall>x \<in> set xs. filter (\<lambda>y. sortCompare cmp x y = 0) (arraySort cmp xs)
                         = filter (\<lambda>y. sortCompare cmp x y = 0) xs)"
    by (elim allE)
  with assms(2) have both: "sorted_wrt (\<lambda>a b. sortCompare cmp a b \<le> 0) (arraySort cmp xs) \<and>
        (\<forall>x \<in> set xs. filter (\<lambda>y. sortCompare cmp x y = 0) (arraySort cmp xs)
                         = filter (\<lambda>y. sortCompare cmp x y = 0) xs)"
    by (rule rev_mp)
  from both show "sorted_wrt (\<lambda>a b. sortCompare cmp a b \<le> 0) (arraySort cmp xs)"
    by (rule conjunct1)
  from both show "x \<in> set xs \<Longrightarrow>
         filter (\<lambda>y. sortCompare cmp x y = 0) (arraySort cmp xs) = filter (\<lambda>y. sortCompare cmp x y = 0) xs"
    by (elim conjE) (erule (1) bspec)
qed

subsection \<open>The comparator of the task view\<close>

lemma compareTasks_valid:
  "sort_key getTime sortBy a \<noteq> None \<Longrightarrow> sort_key getTime sortBy b \<noteq> None \<Longrightarrow>
   sortCompare (compareTasks getTime sortBy) a b = signed_key getTime sortBy a - signed_key getTime sortBy b"
  by (cases sortBy)
     (auto simp: sort_key_def signed_key_def sortCompare_def compareTasks_def num_sub_def)

lemma compareTasks_consistent:
  assumes "\<forall>t \<in> S. sort_key getTime sortBy t \<noteq> None"
  shows "consistent (compareTasks getTime sortBy) S"
  unfolding consistent_def using assms by (auto simp: compareTasks_valid)

lemma compareTasks_tie_iff:
  "sort_key getTime sortBy a \<noteq> None \<Longrightarrow> sort_key getTime sortBy b \<noteq> None \<Longrightarrow>
   sortCompare (compareTasks getTime sortBy) a b = 0
     \<longleftrightarrow> sort_key getTime sortBy b = sort_key getTime sortBy a"
  by (cases sortBy)
     (auto simp: sort_key_def sortCompare_def compareTasks_def num_sub_def)

lemma compareTasks_in_order:
  "sort_key getTime sortBy a \<noteq> None \<Longrightarrow> sort_key getTime sortBy b \<noteq> None \<Longrightarrow>
   sortCompare (compareTasks getTime sortBy) a b \<le> 0 \<longleftrightarrow> in_order getTime sortBy a b"
  by (cases sortBy)
     (auto simp: in_order_def sort_key_def sortCompare_def compareTasks_def num_sub_def)

subsection \<open>The algorithm of V8 for short arrays meets the contract\<close>

lemma consistent_ge_imp_le:
  assumes c: "consistent cmp S" and S: "a \<in> S" "b \<in> S" and ge: "sortCompare cmp a b \<ge> 0"
  shows "sortCompare cmp b a \<le> 0"
proof (cases "sortCompare cmp a b = 0")
  case True
  with c S have "sortCompare cmp b a = 0"
    by (intro consistent_sym [of cmp S a b])
  then show ?thesis by simp
next
  case False
  with ge have "sortCompare cmp a b > 0" by simp
  with c S have "sortCompare cmp b a < 0"
    by (intro consistent_flip_gt)
  then show ?thesis by simp
qed

lemma consistent_lt_le_trans:
  assumes c: "consistent cmp S" and S: "p \<in> S" "m \<in> S" "w \<in> S"
    and pm: "sortCompare cmp p m < 0" and mw: "sortCompare cmp m w \<le> 0"
  shows "sortCompare cmp p w < 0"
proof (rule ccontr)
  assume "\<not> sortCompare cmp p w < 0"
  then have "sortCompare cmp p w \<ge> 0" by simp
  with c S(1) S(3) have "sortCompare cmp w p \<le> 0"
    by (rule consistent_ge_imp_le)
  with c S(2) S(3) S(1) mw have "sortCompare cmp m p \<le> 0"
    by (rule consistent_le_trans)
  moreover from c S(1) S(2) pm have "sortCompare cmp m p > 0"
    by (rule consistent_flip_lt)
  ultimately show False by simp
qed

lemma extend_run_append: "extend_run d cmp prev xs = (run, rest) \<Longrightarrow> run @ rest = xs"
  by (induction xs arbitrary: prev run rest) (auto split: if_splits prod.splits)

lemma extend_run_ascending:
  assumes c: "consistent cmp S"
  shows "prev \<in> S \<Longrightarrow> set xs \<subseteq> S \<Longrightarrow> extend_run False cmp prev xs = (run, rest) \<Longrightarrow>
         sorted_wrt (\<lambda>a b. sortCompare cmp a b \<le> 0) (prev # run)"
proof (induction xs arbitrary: prev run rest)
  case Nil
  then show ?case by simp
next
  case (Cons x xs)
  show ?case
  proof (cases "sortCompare cmp x prev < 0")
    case True
    with Cons.prems show ?thesis by simp
  next
    case False
    obtain r rest' where er: "extend_run False cmp x xs = (r, rest')"
      by (cases "extend_run False cmp x xs")
    with False Cons.prems(3) have run: "run = x # r" by simp
    from Cons.prems have x: "x \<in> S" and xs: "set xs \<subseteq> S" by simp_all
    from Cons.IH [OF x xs er] have tail: "sorted_wrt (\<lambda>a b. sortCompare cmp a b \<le> 0) (x # r)" .
    from extend_run_append [OF er] xs have r: "set r \<subseteq> S" by auto
    from False have "sortCompare cmp x prev \<ge> 0" by simp
    with c x Cons.prems(1) have px: "sortCompare cmp prev x \<le> 0"
      by (rule consistent_ge_imp_le)
    have "\<forall>z \<in> set (x # r). sortCompare cmp prev z \<le> 0"
    proof
      fix z assume z: "z \<in> set (x # r)"
      show "sortCompare cmp prev z \<le> 0"
      proof (cases "z = x")
        case True
        with px show ?thesis by simp
      next
        case False
        with z have zr: "z \<in> set r" by simp
        with tail have xz: "sortCompare cmp x z \<le> 0" by simp
        from zr r have "z \<in> S" by auto
        with c Cons.prems(1) x px xz show ?thesis
          by (intro consistent_le_trans [of cmp S prev x z])
      qed
    qed
    with tail show ?thesis
      unfolding run by simp
  qed
qed

lemma extend_run_descending:
  assumes c: "consistent cmp S"
  shows "prev \<in> S \<Longrightarrow> set xs \<subseteq> S \<Longrightarrow> extend_run True cmp prev xs = (run, rest) \<Longrightarrow>
         sorted_wrt (\<lambda>a b. sortCompare cmp b a < 0) (prev # run)"
proof (induction xs arbitrary: prev run rest)
  case Nil
  then show ?case by simp
next
  case (Cons x xs)
  show ?case
  proof (cases "sortCompare cmp x prev \<ge> 0")
    case True
    with Cons.prems show ?thesis by simp
  next
    case False
    obtain r rest' where er: "extend_run True cmp x xs = (r, rest')"
      by (cases "extend_run True cmp x xs")
    with False Cons.prems(3) have run: "run = x # r" by simp
    from Cons.prems have x: "x \<in> S" and xs: "set xs \<subseteq> S" by simp_all
    from Cons.IH [OF x xs er] have tail: "sorted_wrt (\<lambda>a b. sortCompare cmp b a < 0) (x # r)" .
    from extend_run_append [OF er] xs have r: "set r \<subseteq> S" by auto
    from False have xp: "sortCompare cmp x prev < 0" by simp
    have "\<forall>z \<in> set (x # r). sortCompare cmp z prev < 0"
    proof
      fix z assume z: "z \<in> set (x # r)"
      show "sortCompare cmp z prev < 0"
      proof (cases "z = x")
        case True
        with xp show ?thesis by simp
      next
        case False
        with z have zr: "z \<in> set r" by simp
        with tail have zx: "sortCompare cmp z x < 0" by simp
        from zr r have "z \<in> S" by auto
        with c x Cons.prems(1) zx xp show ?thesis
          by (intro consistent_trans_lt [of cmp S z x prev])
      qed
    qed
    with tail show ?thesis
      unfolding run by simp
  qed
qed

lemma descending_class_once:
  assumes c: "consistent cmp S" and x: "x \<in> S"
  shows "set ys \<subseteq> S \<Longrightarrow> sorted_wrt (\<lambda>a b. sortCompare cmp b a < 0) ys \<Longrightarrow>
         length (filter (\<lambda>y. sortCompare cmp x y = 0) ys) \<le> 1"
proof (induction ys)
  case Nil
  show ?case by simp
next
  case (Cons y ys)
  show ?case
  proof (cases "sortCompare cmp x y = 0")
    case True
    have "\<forall>z \<in> set ys. sortCompare cmp x z \<noteq> 0"
    proof
      fix z assume z: "z \<in> set ys"
      with Cons.prems have zS: "z \<in> S" and yS: "y \<in> S" and zy: "sortCompare cmp z y < 0"
        by auto
      show "sortCompare cmp x z \<noteq> 0"
      proof
        assume "sortCompare cmp x z = 0"
        with c x zS yS True have "sortCompare cmp z y = 0"
          by (intro consistent_class [of cmp S x z y])
        with zy show False by simp
      qed
    qed
    then have "filter (\<lambda>y. sortCompare cmp x y = 0) ys = []"
      by (simp add: filter_empty_conv)
    with True show ?thesis by simp
  next
    case False
    with Cons show ?thesis by simp
  qed
qed

lemma rev_short: "length xs \<le> 1 \<Longrightarrow> rev xs = xs"
  by (cases xs) auto

lemma count_and_make_run_mset:
  "count_and_make_run cmp xs = (run, rest) \<Longrightarrow> mset run + mset rest = mset xs"
proof (induction cmp xs rule: count_and_make_run.induct)
  case (3 cmp elementHigh elementLow rest0)
  obtain r rest' where er: "extend_run (sortCompare cmp elementLow elementHigh < 0) cmp elementLow rest0 = (r, rest')"
    by (cases "extend_run (sortCompare cmp elementLow elementHigh < 0) cmp elementLow rest0")
  from extend_run_append [OF er] have "mset r + mset rest' = mset rest0"
    by (metis mset_append)
  with 3 er show ?case
    by (auto simp: Let_def split: if_splits)
qed simp_all

lemma count_and_make_run_sorted:
  assumes c: "consistent cmp (set xs)" and run: "count_and_make_run cmp xs = (run, rest)"
  shows "sorted_wrt (\<lambda>a b. sortCompare cmp a b \<le> 0) run \<and>
         (\<forall>x \<in> set xs. filter (\<lambda>y. sortCompare cmp x y = 0) (run @ rest)
                         = filter (\<lambda>y. sortCompare cmp x y = 0) xs)"
proof (cases xs)
  case Nil
  with run show ?thesis by simp
next
  case (Cons elementHigh tl)
  show ?thesis
  proof (cases tl)
    case Nil
    with Cons run show ?thesis by auto
  next
    case (Cons elementLow rest0)
    note xs = \<open>xs = elementHigh # tl\<close> Cons
    let ?S = "set xs"
    let ?d = "sortCompare cmp elementLow elementHigh < 0"
    obtain r rest' where er: "extend_run ?d cmp elementLow rest0 = (r, rest')"
      by (cases "extend_run ?d cmp elementLow rest0")
    have app: "r @ rest' = rest0"
      using er by (rule extend_run_append)
    have hi: "elementHigh \<in> ?S" and lo: "elementLow \<in> ?S" and sub: "set rest0 \<subseteq> ?S"
      by (auto simp: xs)
    show ?thesis
    proof (cases ?d)
      case True
      with run er have res: "run = rev (elementHigh # elementLow # r)" "rest = rest'"
        by (simp_all add: xs Let_def)
      from True er have "sorted_wrt (\<lambda>a b. sortCompare cmp b a < 0) (elementLow # r)"
        using extend_run_descending [OF c lo sub] by simp
      with True have desc: "sorted_wrt (\<lambda>a b. sortCompare cmp b a < 0) (elementHigh # elementLow # r)"
      proof -
        assume tail: "sorted_wrt (\<lambda>a b. sortCompare cmp b a < 0) (elementLow # r)"
        have "\<forall>z \<in> set r. sortCompare cmp z elementHigh < 0"
        proof
          fix z assume z: "z \<in> set r"
          with tail have "sortCompare cmp z elementLow < 0" by simp
          moreover from z app sub have "z \<in> ?S" by auto
          ultimately show "sortCompare cmp z elementHigh < 0"
            using c lo hi True by (intro consistent_trans_lt [of cmp ?S z elementLow elementHigh])
        qed
        with tail True show ?thesis by simp
      qed
      have runS: "set (elementHigh # elementLow # r) \<subseteq> ?S"
        using app by (auto simp: xs)
      from desc have "sorted_wrt (\<lambda>a b. sortCompare cmp a b < 0) run"
        unfolding res by (simp only: sorted_wrt_rev)
      then have sorted: "sorted_wrt (\<lambda>a b. sortCompare cmp a b \<le> 0) run"
        by (rule sorted_wrt_mono_rel [rotated]) simp
      have stable: "filter (\<lambda>y. sortCompare cmp x y = 0) (run @ rest)
                    = filter (\<lambda>y. sortCompare cmp x y = 0) xs" if x: "x \<in> ?S" for x
      proof -
        let ?C = "\<lambda>y. sortCompare cmp x y = 0"
        from descending_class_once [OF c x runS desc]
        have "rev (filter ?C (elementHigh # elementLow # r)) = filter ?C (elementHigh # elementLow # r)"
          by (rule rev_short)
        then have "filter ?C run = filter ?C (elementHigh # elementLow # r)"
          unfolding res by (simp only: rev_filter)
        moreover have "xs = (elementHigh # elementLow # r) @ rest"
          using app by (simp add: xs res)
        ultimately show ?thesis
          by (metis filter_append)
      qed
      from sorted stable show ?thesis by blast
    next
      case False
      with run er have res: "run = elementHigh # elementLow # r" "rest = rest'"
        by (simp_all add: xs Let_def)
      from False er have tail: "sorted_wrt (\<lambda>a b. sortCompare cmp a b \<le> 0) (elementLow # r)"
        using extend_run_ascending [OF c lo sub] by simp
      from False have "sortCompare cmp elementLow elementHigh \<ge> 0" by simp
      with c lo hi have hl: "sortCompare cmp elementHigh elementLow \<le> 0"
        by (rule consistent_ge_imp_le)
      have "\<forall>z \<in> set r. sortCompare cmp elementHigh z \<le> 0"
      proof
        fix z assume z: "z \<in> set r"
        with tail have "sortCompare cmp elementLow z \<le> 0" by simp
        moreover from z app sub have "z \<in> ?S" by auto
        ultimately show "sortCompare cmp elementHigh z \<le> 0"
          using c hi lo hl by (intro consistent_le_trans [of cmp ?S elementHigh elementLow z])
      qed
      with tail hl have sorted: "sorted_wrt (\<lambda>a b. sortCompare cmp a b \<le> 0) run"
        unfolding res by simp
      have "run @ rest = xs"
        using app by (simp add: xs res)
      with sorted show ?thesis by simp
    qed
  qed
qed

lemma binary_search_step:
  "left < right \<Longrightarrow>
   binary_search cmp pivot ws left right =
     (if sortCompare cmp pivot (ws ! (left + (right - left) div 2)) < 0
      then binary_search cmp pivot ws left (left + (right - left) div 2)
      else binary_search cmp pivot ws (left + (right - left) div 2 + 1) right)"
  by (subst binary_search.simps) simp

lemma binary_search_stop: "\<not> left < right \<Longrightarrow> binary_search cmp pivot ws left right = left"
  by (subst binary_search.simps) simp

lemma binary_search_bounds:
  "left \<le> right \<Longrightarrow>
   left \<le> binary_search cmp pivot ws left right \<and> binary_search cmp pivot ws left right \<le> right"
proof (induction cmp pivot ws left right rule: binary_search.induct)
  case (1 cmp pivot ws left right)
  show ?case
  proof (cases "left < right")
    case False
    with "1.prems" show ?thesis
      by (simp add: binary_search_stop)
  next
    case True
    let ?mid = "left + (right - left) div 2"
    from True have mid: "left \<le> ?mid" "?mid < right" by linarith+
    show ?thesis
    proof (cases "sortCompare cmp pivot (ws ! ?mid) < 0")
      case lt: True
      from "1.IH"(1) [OF True lt] mid have
        "left \<le> binary_search cmp pivot ws left ?mid \<and> binary_search cmp pivot ws left ?mid \<le> ?mid"
        by simp
      with True lt mid show ?thesis
        by (simp add: binary_search_step)
    next
      case ge: False
      from "1.IH"(2) [OF True ge] mid have
        "?mid + 1 \<le> binary_search cmp pivot ws (?mid + 1) right \<and>
         binary_search cmp pivot ws (?mid + 1) right \<le> right"
        by simp
      with True ge mid show ?thesis
        by (simp add: binary_search_step)
    qed
  qed
qed

lemma binary_search_split:
  "consistent cmp S \<Longrightarrow> pivot \<in> S \<Longrightarrow> set ws \<subseteq> S \<Longrightarrow>
   sorted_wrt (\<lambda>a b. sortCompare cmp a b \<le> 0) ws \<Longrightarrow>
   left \<le> right \<Longrightarrow> right \<le> length ws \<Longrightarrow>
   \<forall>j < left. sortCompare cmp pivot (ws ! j) \<ge> 0 \<Longrightarrow>
   \<forall>j. right \<le> j \<and> j < length ws \<longrightarrow> sortCompare cmp pivot (ws ! j) < 0 \<Longrightarrow>
   (\<forall>j < binary_search cmp pivot ws left right. sortCompare cmp pivot (ws ! j) \<ge> 0) \<and>
   (\<forall>j. binary_search cmp pivot ws left right \<le> j \<and> j < length ws
         \<longrightarrow> sortCompare cmp pivot (ws ! j) < 0)"
proof (induction cmp pivot ws left right rule: binary_search.induct)
  case (1 cmp pivot ws left right)
  note c = "1.prems"(1) and p = "1.prems"(2) and ws = "1.prems"(3) and sorted = "1.prems"(4)
  show ?case
  proof (cases "left < right")
    case False
    with "1.prems"(5) have lr: "right = left" by simp
    have stop: "binary_search cmp pivot ws left right = left"
      using False by (rule binary_search_stop)
    from "1.prems"(7) "1.prems"(8) [unfolded lr] show ?thesis
      unfolding stop by (rule conjI)
  next
    case True
    let ?mid = "left + (right - left) div 2"
    from True "1.prems"(6) have mid: "left \<le> ?mid" "?mid < right" "?mid < length ws"
      by linarith+
    have inS: "ws ! j \<in> S" if "j < length ws" for j
      using that ws nth_mem by blast
    have le_nth: "sortCompare cmp (ws ! i) (ws ! j) \<le> 0" if "i < j" "j < length ws" for i j
      using sorted_wrt_nth_less [OF sorted that] .
    show ?thesis
    proof (cases "sortCompare cmp pivot (ws ! ?mid) < 0")
      case lt: True
      have above: "\<forall>j. ?mid \<le> j \<and> j < length ws \<longrightarrow> sortCompare cmp pivot (ws ! j) < 0"
      proof (intro allI impI)
        fix j assume j: "?mid \<le> j \<and> j < length ws"
        show "sortCompare cmp pivot (ws ! j) < 0"
        proof (cases "j = ?mid")
          case True
          with lt show ?thesis by simp
        next
          case False
          with j have mj: "?mid < j" and jl: "j < length ws" by simp_all
          from le_nth [OF mj jl] have le: "sortCompare cmp (ws ! ?mid) (ws ! j) \<le> 0" .
          from c p inS [OF mid(3)] inS [OF jl] lt le show ?thesis
            by (rule consistent_lt_le_trans)
        qed
      qed
      from mid have ml: "?mid \<le> length ws" by simp
      have eq: "binary_search cmp pivot ws left right = binary_search cmp pivot ws left ?mid"
        using binary_search_step [OF True, of cmp pivot ws] if_P [OF lt] by (rule trans)
      from "1.IH"(1) [OF True lt c p ws sorted mid(1) ml "1.prems"(7) above]
      show ?thesis
        unfolding eq .
    next
      case ge: False
      have below: "\<forall>j < ?mid + 1. sortCompare cmp pivot (ws ! j) \<ge> 0"
      proof (intro allI impI)
        fix j assume j: "j < ?mid + 1"
        show "sortCompare cmp pivot (ws ! j) \<ge> 0"
        proof (cases "j = ?mid")
          case True
          with ge show ?thesis by simp
        next
          case False
          with j have jm: "j < ?mid" by simp
          with mid have jl: "j < length ws" by simp
          from le_nth [OF jm mid(3)] have le: "sortCompare cmp (ws ! j) (ws ! ?mid) \<le> 0" .
          show ?thesis
          proof (rule ccontr)
            assume "\<not> sortCompare cmp pivot (ws ! j) \<ge> 0"
            then have lt': "sortCompare cmp pivot (ws ! j) < 0" by simp
            from c p inS [OF jl] inS [OF mid(3)] lt' le have "sortCompare cmp pivot (ws ! ?mid) < 0"
              by (rule consistent_lt_le_trans)
            with ge show False by simp
          qed
        qed
      qed
      from mid have mr: "?mid + 1 \<le> right" by simp
      have eq: "binary_search cmp pivot ws left right = binary_search cmp pivot ws (?mid + 1) right"
        using binary_search_step [OF True, of cmp pivot ws] if_not_P [OF ge] by (rule trans)
      from "1.IH"(2) [OF True ge c p ws sorted mr "1.prems"(6) below "1.prems"(8)]
      show ?thesis
        unfolding eq .
    qed
  qed
qed

lemma mset_binary_insert: "mset (binary_insert cmp ws pivot) = add_mset pivot (mset ws)"
proof -
  let ?i = "binary_search cmp pivot ws 0 (length ws)"
  have "mset (take ?i ws @ pivot # drop ?i ws) = add_mset pivot (mset (take ?i ws @ drop ?i ws))"
    by (simp only: mset_append mset.simps union_mset_add_mset_right)
  then have "mset (take ?i ws @ pivot # drop ?i ws) = add_mset pivot (mset ws)"
    by (simp only: append_take_drop_id)
  then show ?thesis
    by (simp only: binary_insert_def Let_def)
qed

lemma set_binary_insert: "set (binary_insert cmp ws pivot) = insert pivot (set ws)"
  using mset_binary_insert [of cmp ws pivot] by (metis set_mset_add_mset_insert set_mset_mset)

lemma mset_foldl_binary_insert: "mset (foldl (binary_insert cmp) ws rest) = mset ws + mset rest"
  by (induction rest arbitrary: ws) (simp_all add: mset_binary_insert)

lemma mset_timsort_short: "mset (timsort_short cmp xs) = mset xs"
proof (cases "length xs < 2")
  case True
  then show ?thesis by (simp add: timsort_short_def)
next
  case False
  obtain run rest where cr: "count_and_make_run cmp xs = (run, rest)"
    by (cases "count_and_make_run cmp xs")
  from count_and_make_run_mset [OF cr] False cr show ?thesis
    by (simp add: timsort_short_def mset_foldl_binary_insert)
qed

lemma binary_insert_sorted:
  assumes c: "consistent cmp S" and p: "pivot \<in> S" and ws: "set ws \<subseteq> S"
    and sorted: "sorted_wrt (\<lambda>a b. sortCompare cmp a b \<le> 0) ws"
  shows "sorted_wrt (\<lambda>a b. sortCompare cmp a b \<le> 0) (binary_insert cmp ws pivot) \<and>
         (\<forall>x \<in> S. filter (\<lambda>y. sortCompare cmp x y = 0) (binary_insert cmp ws pivot)
                    = filter (\<lambda>y. sortCompare cmp x y = 0) (ws @ [pivot]))"
proof -
  let ?i = "binary_search cmp pivot ws 0 (length ws)"
  let ?lo = "take ?i ws" and ?hi = "drop ?i ws"
  have res: "binary_insert cmp ws pivot = ?lo @ pivot # ?hi"
    by (simp add: binary_insert_def Let_def)
  have split: "(\<forall>j < ?i. sortCompare cmp pivot (ws ! j) \<ge> 0) \<and>
      (\<forall>j. ?i \<le> j \<and> j < length ws \<longrightarrow> sortCompare cmp pivot (ws ! j) < 0)"
    using c p ws sorted by (rule binary_search_split) simp_all
  have bound: "?i \<le> length ws"
    using binary_search_bounds [of 0 "length ws" cmp pivot ws] by simp
  have lo: "sortCompare cmp pivot w \<ge> 0" if "w \<in> set ?lo" for w
  proof -
    from that obtain j where "j < length ?lo" and "?lo ! j = w"
      by (auto simp: in_set_conv_nth)
    then have "j < ?i" and "w = ws ! j" by simp_all
    with split show ?thesis by blast
  qed
  have hi: "sortCompare cmp pivot w < 0" if "w \<in> set ?hi" for w
  proof -
    from that obtain j where j: "j < length ?hi" and w: "?hi ! j = w"
      by (auto simp: in_set_conv_nth)
    from j have "?i + j < length ws" by simp
    moreover from j w have "w = ws ! (?i + j)" by simp
    ultimately show ?thesis using split by simp
  qed
  have loS: "set ?lo \<subseteq> S" and hiS: "set ?hi \<subseteq> S"
    using ws set_take_subset [of ?i ws] set_drop_subset [of ?i ws] by blast+
  from sorted have "sorted_wrt (\<lambda>a b. sortCompare cmp a b \<le> 0) (?lo @ ?hi)"
    by (simp only: append_take_drop_id)
  then have all_parts: "sorted_wrt (\<lambda>a b. sortCompare cmp a b \<le> 0) ?lo \<and>
    sorted_wrt (\<lambda>a b. sortCompare cmp a b \<le> 0) ?hi \<and>
    (\<forall>a \<in> set ?lo. \<forall>b \<in> set ?hi. sortCompare cmp a b \<le> 0)"
    by (rule iffD1 [OF sorted_wrt_append])
  note parts = all_parts [THEN conjunct1] all_parts [THEN conjunct2, THEN conjunct1]
    all_parts [THEN conjunct2, THEN conjunct2]
  have lo_le: "\<forall>a \<in> set ?lo. sortCompare cmp a pivot \<le> 0"
  proof
    fix a assume a: "a \<in> set ?lo"
    with loS have "a \<in> S" by auto
    with c p lo [OF a] show "sortCompare cmp a pivot \<le> 0"
      by (intro consistent_ge_imp_le [of cmp S pivot a])
  qed
  have hi_le: "\<forall>b \<in> set ?hi. sortCompare cmp pivot b \<le> 0"
    using hi by fastforce
  have sorted': "sorted_wrt (\<lambda>a b. sortCompare cmp a b \<le> 0) (?lo @ pivot # ?hi)"
    using parts lo_le hi_le by (simp add: sorted_wrt_append)
  have stable: "filter (\<lambda>y. sortCompare cmp x y = 0) (?lo @ pivot # ?hi)
                = filter (\<lambda>y. sortCompare cmp x y = 0) (ws @ [pivot])" if x: "x \<in> S" for x
  proof (cases "sortCompare cmp x pivot = 0")
    case True
    have "\<forall>b \<in> set ?hi. sortCompare cmp x b \<noteq> 0"
    proof
      fix b assume b: "b \<in> set ?hi"
      with hiS have bS: "b \<in> S" by auto
      show "sortCompare cmp x b \<noteq> 0"
      proof
        assume "sortCompare cmp x b = 0"
        with c x p bS True have "sortCompare cmp pivot b = 0"
          by (intro consistent_class [of cmp S x pivot b])
        with hi [OF b] show False by simp
      qed
    qed
    then have empty: "filter (\<lambda>y. sortCompare cmp x y = 0) ?hi = []"
      by (simp add: filter_empty_conv)
    have "filter (\<lambda>y. sortCompare cmp x y = 0) ws
          = filter (\<lambda>y. sortCompare cmp x y = 0) ?lo @ filter (\<lambda>y. sortCompare cmp x y = 0) ?hi"
      by (metis append_take_drop_id filter_append)
    with empty True show ?thesis by simp
  next
    case False
    have "filter (\<lambda>y. sortCompare cmp x y = 0) ws
          = filter (\<lambda>y. sortCompare cmp x y = 0) ?lo @ filter (\<lambda>y. sortCompare cmp x y = 0) ?hi"
      by (metis append_take_drop_id filter_append)
    with False show ?thesis by simp
  qed
  from sorted' stable show ?thesis
    unfolding res by blast
qed

lemma foldl_binary_insert_sorted:
  assumes c: "consistent cmp S"
  shows "set rest \<subseteq> S \<Longrightarrow> set ws \<subseteq> S \<Longrightarrow> sorted_wrt (\<lambda>a b. sortCompare cmp a b \<le> 0) ws \<Longrightarrow>
         sorted_wrt (\<lambda>a b. sortCompare cmp a b \<le> 0) (foldl (binary_insert cmp) ws rest) \<and>
         (\<forall>x \<in> S. filter (\<lambda>y. sortCompare cmp x y = 0) (foldl (binary_insert cmp) ws rest)
                    = filter (\<lambda>y. sortCompare cmp x y = 0) (ws @ rest))"
proof (induction rest arbitrary: ws)
  case Nil
  then show ?case by simp
next
  case (Cons p rest)
  from Cons.prems have p: "p \<in> S" and rest: "set rest \<subseteq> S" by simp_all
  note step = binary_insert_sorted [OF c p Cons.prems(2) Cons.prems(3)]
  have sub: "set (binary_insert cmp ws p) \<subseteq> S"
    using p Cons.prems(2) by (simp add: set_binary_insert)
  note IH = Cons.IH [OF rest sub step [THEN conjunct1]]
  have "\<forall>x \<in> S. filter (\<lambda>y. sortCompare cmp x y = 0) (foldl (binary_insert cmp) ws (p # rest))
                 = filter (\<lambda>y. sortCompare cmp x y = 0) (ws @ p # rest)"
  proof
    fix x assume x: "x \<in> S"
    from IH x have "filter (\<lambda>y. sortCompare cmp x y = 0) (foldl (binary_insert cmp) (binary_insert cmp ws p) rest)
        = filter (\<lambda>y. sortCompare cmp x y = 0) (binary_insert cmp ws p @ rest)"
      by blast
    also from step x have "\<dots> = filter (\<lambda>y. sortCompare cmp x y = 0) ((ws @ [p]) @ rest)"
      by (simp only: filter_append)
    finally show "filter (\<lambda>y. sortCompare cmp x y = 0) (foldl (binary_insert cmp) ws (p # rest))
                 = filter (\<lambda>y. sortCompare cmp x y = 0) (ws @ p # rest)"
      by simp
  qed
  with IH show ?case by simp
qed

lemma sort_conforms_timsort_short: "sort_conforms timsort_short"
  unfolding sort_conforms_def
proof (intro conjI allI impI)
  fix cmp :: "'a \<Rightarrow> 'a \<Rightarrow> int option" and xs
  show "mset (timsort_short cmp xs) = mset xs"
    by (rule mset_timsort_short)
next
  fix cmp :: "'a \<Rightarrow> 'a \<Rightarrow> int option" and xs
  assume c: "consistent cmp (set xs)"
  show "sorted_wrt (\<lambda>a b. sortCompare cmp a b \<le> 0) (timsort_short cmp xs)"
  proof (cases "length xs < 2")
    case True
    then have "xs = [] \<or> (\<exists>x. xs = [x])"
      by (cases xs) (auto simp: length_Suc_conv)
    with True show ?thesis
      by (auto simp: timsort_short_def)
  next
    case False
    obtain run rest where cr: "count_and_make_run cmp xs = (run, rest)"
      by (cases "count_and_make_run cmp xs")
    from count_and_make_run_mset [OF cr] have sets: "set run \<subseteq> set xs" "set rest \<subseteq> set xs"
      by (metis mset_subset_eqD mset_subset_eq_add_left mset_subset_eq_add_right set_mset_mset subsetI)+
    from count_and_make_run_sorted [OF c cr]
    have "sorted_wrt (\<lambda>a b. sortCompare cmp a b \<le> 0) run" by simp
    from foldl_binary_insert_sorted [OF c sets(2) sets(1) this] False cr show ?thesis
      by (simp add: timsort_short_def)
  qed
next
  fix cmp :: "'a \<Rightarrow> 'a \<Rightarrow> int option" and xs
  assume c: "consistent cmp (set xs)"
  show "\<forall>x \<in> set xs. filter (\<lambda>y. sortCompare cmp x y = 0) (timsort_short cmp xs)
                        = filter (\<lambda>y. sortCompare cmp x y = 0) xs"
  proof (cases "length xs < 2")
    case True
    then show ?thesis by (simp add: timsort_short_def)
  next
    case False
    obtain run rest where cr: "count_and_make_run cmp xs = (run, rest)"
      by (cases "count_and_make_run cmp xs")
    from count_and_make_run_mset [OF cr] have sets: "set run \<subseteq> set xs" "set rest \<subseteq> set xs"
      by (metis mset_subset_eqD mset_subset_eq_add_left mset_subset_eq_add_right set_mset_mset subsetI)+
    note runs = count_and_make_run_sorted [OF c cr]
    note fold = foldl_binary_insert_sorted [OF c sets(2) sets(1) runs [THEN conjunct1]]
    show ?thesis
    proof
      fix x assume x: "x \<in> set xs"
      from fold x have "filter (\<lambda>y. sortCompare cmp x y = 0) (foldl (binary_insert cmp) run rest)
          = filter (\<lambda>y. sortCompare cmp x y = 0) (run @ rest)"
        by blast
      also from runs x have "\<dots> = filter (\<lambda>y. sortCompare cmp x y = 0) xs"
        by blast
      finally show "filter (\<lambda>y. sortCompare cmp x y = 0) (timsort_short cmp xs)
          = filter (\<lambda>y. sortCompare cmp x y = 0) xs"
        using False cr by (simp add: timsort_short_def)
    qed
  qed
qed

section \<open>Searching\<close>

lemma startsWith_iff: "startsWith s sub \<longleftrightarrow> (\<exists>q. s = sub @ q)"
  by (induction s sub rule: startsWith.induct) auto

lemma str_includes_iff: "str_includes s sub \<longleftrightarrow> (\<exists>p q. s = p @ sub @ q)"
proof (induction s)
  case Nil
  show ?case by auto
next
  case (Cons c s)
  show ?case
  proof
    assume "str_includes (c # s) sub"
    then consider "startsWith (c # s) sub" | "str_includes s sub" by auto
    then show "\<exists>p q. c # s = p @ sub @ q"
    proof cases
      case 1
      then obtain q where "c # s = [] @ sub @ q"
        by (auto simp: startsWith_iff)
      then show ?thesis by blast
    next
      case 2
      with Cons.IH obtain p q where "s = p @ sub @ q" by auto
      then have "c # s = (c # p) @ sub @ q" by simp
      then show ?thesis by blast
    qed
  next
    assume "\<exists>p q. c # s = p @ sub @ q"
    then obtain p q where eq: "c # s = p @ sub @ q" by auto
    show "str_includes (c # s) sub"
    proof (cases p)
      case Nil
      with eq have "startsWith (c # s) sub"
        by (auto simp: startsWith_iff)
      then show ?thesis by simp
    next
      case (Cons d p')
      with eq have "s = p' @ sub @ q" by simp
      with Cons.IH have "str_includes s sub" by auto
      then show ?thesis by simp
    qed
  qed
qed

lemma kept_imp_matches:
  "kept toLowerCase searchQuery filter' t \<Longrightarrow>
   search_matches toLowerCase searchQuery t \<and> status_matches filter' t"
  by (auto simp: kept_def search_matches_def matches_search_def split: option.splits)

section \<open>The derived task view\<close>

lemma filteredAndSortedTasks_heap:
  assumes "tasks < length h"
  shows "snd (filteredAndSortedTasks arraySort toLowerCase getTime h tasks searchQuery filter' sortBy) \<ge> length h \<and>
         snd (filteredAndSortedTasks arraySort toLowerCase getTime h tasks searchQuery filter' sortBy)
           < length (fst (filteredAndSortedTasks arraySort toLowerCase getTime h tasks searchQuery filter' sortBy)) \<and>
         fst (filteredAndSortedTasks arraySort toLowerCase getTime h tasks searchQuery filter' sortBy)
           ! snd (filteredAndSortedTasks arraySort toLowerCase getTime h tasks searchQuery filter' sortBy)
           = arraySort (compareTasks getTime sortBy)
               (filter (kept toLowerCase searchQuery filter') (h ! tasks)) \<and>
         (\<forall>a < length h.
            fst (filteredAndSortedTasks arraySort toLowerCase getTime h tasks searchQuery filter' sortBy) ! a = h ! a)"
proof -
  have k: "filter (kept toLowerCase searchQuery filter') xs =
        filter (status_matches filter')
          (if searchQuery \<noteq> [] then filter (matches_search toLowerCase (toLowerCase searchQuery)) xs else xs)" for xs
    by (auto simp: kept_def intro: filter_cong)
  show ?thesis
    unfolding k
    by (cases filter'; cases "searchQuery = []")
       (auto simp: filteredAndSortedTasks_def alloc_def sort_in_place_def
          status_matches_def [abs_def] nth_append Let_def)
qed

lemma view_stable:
  assumes conf: "sort_conforms arraySort"
    and valid: "\<forall>t \<in> set xs. sort_key getTime sortBy t \<noteq> None"
  shows "filter (\<lambda>t. sort_key getTime sortBy t = k) (arraySort (compareTasks getTime sortBy) xs)
         = filter (\<lambda>t. sort_key getTime sortBy t = k) xs"
proof (cases "\<exists>x \<in> set xs. sort_key getTime sortBy x = k")
  case True
  then obtain x where x: "x \<in> set xs" and kx: "sort_key getTime sortBy x = k"
    by blast
  let ?cmp = "compareTasks getTime sortBy"
  from valid have c: "consistent ?cmp (set xs)"
    by (rule compareTasks_consistent)
  have cls: "sortCompare ?cmp x y = 0 \<longleftrightarrow> sort_key getTime sortBy y = k" if "y \<in> set xs" for y
  proof -
    from valid x that have "sort_key getTime sortBy x \<noteq> None" and "sort_key getTime sortBy y \<noteq> None"
      by blast+
    then have "sortCompare ?cmp x y = 0 \<longleftrightarrow> sort_key getTime sortBy y = sort_key getTime sortBy x"
      by (rule compareTasks_tie_iff)
    with kx show ?thesis by simp
  qed
  have "filter (\<lambda>t. sort_key getTime sortBy t = k) (arraySort ?cmp xs)
        = filter (\<lambda>y. sortCompare ?cmp x y = 0) (arraySort ?cmp xs)"
    by (rule filter_cong) (simp_all add: sort_conforms_set [OF conf] cls)
  also have "\<dots> = filter (\<lambda>y. sortCompare ?cmp x y = 0) xs"
    using conf c x by (rule sort_conforms_consistent(2))
  also have "\<dots> = filter (\<lambda>t. sort_key getTime sortBy t = k) xs"
    by (rule filter_cong) (simp_all add: cls)
  finally show ?thesis .
next
  case False
  then have "filter (\<lambda>t. sort_key getTime sortBy t = k) xs = []"
    by (simp add: filter_empty_conv)
  moreover from False
  have "filter (\<lambda>t. sort_key getTime sortBy t = k) (arraySort (compareTasks getTime sortBy) xs) = []"
    by (simp add: filter_empty_conv sort_conforms_set [OF conf])
  ultimately show ?thesis by simp
qed

lemma view_in_order:
  assumes conf: "sort_conforms arraySort"
    and valid: "\<forall>t \<in> set xs. sort_key getTime sortBy t \<noteq> None"
  shows "sorted_wrt (in_order getTime sortBy) (arraySort (compareTasks getTime sortBy) xs)"
proof -
  let ?cmp = "compareTasks getTime sortBy"
  from valid have c: "consistent ?cmp (set xs)"
    by (rule compareTasks_consistent)
  from conf c have "sorted_wrt (\<lambda>a b. sortCompare ?cmp a b \<le> 0) (arraySort ?cmp xs)"
    by (rule sort_conforms_consistent(1))
  moreover have "\<And>a b. a \<in> set (arraySort ?cmp xs) \<Longrightarrow> b \<in> set (arraySort ?cmp xs) \<Longrightarrow>
      sortCompare ?cmp a b \<le> 0 \<Longrightarrow> in_order getTime sortBy a b"
    using valid by (simp add: sort_conforms_set [OF conf] compareTasks_in_order)
  ultimately show ?thesis
    by (rule sorted_wrt_mono_rel [rotated])
qed

text \<open>
  Claim C7, as amended. Let the engine's sort function meet the contract of the language.
  For every task list (the array at a valid reference), search text, status filter and
  sort option, the derived view is a new array with these properties: its tasks are
  tasks of the input, each as often as in the input at most; each of them satisfies the
  search predicate and the status predicate; every array that was on the heap before,
  the task list among them, is unchanged. When every task that passes the two filters
  has a valid date under the sort option, the tasks of the view that share a sort key
  stand in the order they have in the input, and the view is ordered by the sort option.
\<close>

theorem filteredAndSortedTasks_view:
  assumes "sort_conforms arraySort" and "tasks < length h"
  shows "mset (derived_view arraySort toLowerCase getTime h tasks searchQuery filter' sortBy)
           \<subseteq># mset (h ! tasks) \<and>
         (\<forall>t \<in> set (derived_view arraySort toLowerCase getTime h tasks searchQuery filter' sortBy).
             search_matches toLowerCase searchQuery t \<and> status_matches filter' t) \<and>
         (\<forall>a < length h.
             heap_after arraySort toLowerCase getTime h tasks searchQuery filter' sortBy ! a = h ! a) \<and>
         heap_after arraySort toLowerCase getTime h tasks searchQuery filter' sortBy ! tasks = h ! tasks \<and>
         ((\<forall>t \<in> set (filter (kept toLowerCase searchQuery filter') (h ! tasks)).
              sort_key getTime sortBy t \<noteq> None) \<longrightarrow>
            (\<forall>k. filter (\<lambda>t. sort_key getTime sortBy t = k)
                    (derived_view arraySort toLowerCase getTime h tasks searchQuery filter' sortBy)
                  = filter (\<lambda>t. sort_key getTime sortBy t = k)
                      (filter (kept toLowerCase searchQuery filter') (h ! tasks))) \<and>
            sorted_wrt (in_order getTime sortBy)
              (derived_view arraySort toLowerCase getTime h tasks searchQuery filter' sortBy))"
proof -
  let ?kept = "filter (kept toLowerCase searchQuery filter') (h ! tasks)"
  let ?out = "derived_view arraySort toLowerCase getTime h tasks searchQuery filter' sortBy"
  let ?heap = "heap_after arraySort toLowerCase getTime h tasks searchQuery filter' sortBy"
  note heap = filteredAndSortedTasks_heap [OF assms(2), of arraySort toLowerCase getTime searchQuery filter' sortBy]
  from heap have out: "?out = arraySort (compareTasks getTime sortBy) ?kept"
    by (simp add: derived_view_def)
  from heap have frame: "\<forall>a < length h. ?heap ! a = h ! a"
    by (simp add: heap_after_def)
  have sub: "mset ?out \<subseteq># mset (h ! tasks)"
    unfolding out sort_conforms_mset [OF assms(1)] by simp
  have preds: "\<forall>t \<in> set ?out. search_matches toLowerCase searchQuery t \<and> status_matches filter' t"
    unfolding out sort_conforms_set [OF assms(1)] using kept_imp_matches by auto
  from frame assms(2) have self: "?heap ! tasks = h ! tasks"
    by simp
  have dates: "(\<forall>t \<in> set ?kept. sort_key getTime sortBy t \<noteq> None) \<longrightarrow>
      (\<forall>k. filter (\<lambda>t. sort_key getTime sortBy t = k) ?out
            = filter (\<lambda>t. sort_key getTime sortBy t = k) ?kept) \<and>
      sorted_wrt (in_order getTime sortBy) ?out"
  proof (intro impI conjI allI)
    fix k
    assume valid: "\<forall>t \<in> set ?kept. sort_key getTime sortBy t \<noteq> None"
    from assms(1) valid show "filter (\<lambda>t. sort_key getTime sortBy t = k) ?out
        = filter (\<lambda>t. sort_key getTime sortBy t = k) ?kept"
      unfolding out by (rule view_stable)
  next
    assume valid: "\<forall>t \<in> set ?kept. sort_key getTime sortBy t \<noteq> None"
    from assms(1) valid show "sorted_wrt (in_order getTime sortBy) ?out"
      unfolding out by (rule view_in_order)
  qed
  from sub preds frame self dates show ?thesis
    by (intro conjI)
qed

theorem filteredAndSortedTasks_view_witness:
  "sort_conforms (insertion_sort :: (Task \<Rightarrow> Task \<Rightarrow> int option) \<Rightarrow> Task list \<Rightarrow> Task list) \<and>
   0 < length [[sample_task ''t3'' ''ann'' Pending ''1970-01-03T00:00:00.000Z'',
                sample_task ''t1'' ''ann'' Pending ''1970-01-01T00:00:01.000Z'']] \<and>
   heap_after insertion_sort sample_lower sample_getTime
     [[sample_task ''t3'' ''ann'' Pending ''1970-01-03T00:00:00.000Z'',
       sample_task ''t1'' ''ann'' Pending ''1970-01-01T00:00:01.000Z'']] 0 [] FilterAll DeadlineAsc ! 0
     = [sample_task ''t3'' ''ann'' Pending ''1970-01-03T00:00:00.000Z'',
        sample_task ''t1'' ''ann'' Pending ''1970-01-01T00:00:01.000Z''] \<and>
   list_all (\<lambda>t. sort_key sample_getTime DeadlineAsc t \<noteq> None)
     (filter (kept sample_lower [] FilterAll)
        [sample_task ''t3'' ''ann'' Pending ''1970-01-03T00:00:00.000Z'',
         sample_task ''t1'' ''ann'' Pending ''1970-01-01T00:00:01.000Z'']) \<and>
   sorted_wrt (in_order sample_getTime DeadlineAsc)
     (derived_view insertion_sort sample_lower sample_getTime
        [[sample_task ''t3'' ''ann'' Pending ''1970-01-03T00:00:00.000Z'',
          sample_task ''t1'' ''ann'' Pending ''1970-01-01T00:00:01.000Z'']] 0 [] FilterAll DeadlineAsc)"
proof -
  let ?ts = "[sample_task ''t3'' ''ann'' Pending ''1970-01-03T00:00:00.000Z'',
              sample_task ''t1'' ''ann'' Pending ''1970-01-01T00:00:01.000Z'']"
  have c: "sort_conforms (insertion_sort :: (Task \<Rightarrow> Task \<Rightarrow> int option) \<Rightarrow> Task list \<Rightarrow> Task list)"
    by (rule sort_conforms_insertion_sort)
  have h: "0 < length [?ts]" by simp
  have v: "list_all (\<lambda>t. sort_key sample_getTime DeadlineAsc t \<noteq> None)
             (filter (kept sample_lower [] FilterAll) ?ts)"
    by (simp add: kept_def status_matches_def sort_key_def sample_task_def sample_getTime_def)
  have b: "[?ts] ! 0 = ?ts" by simp
  then have v': "\<forall>t \<in> set (filter (kept sample_lower [] FilterAll) ([?ts] ! 0)).
                   sort_key sample_getTime DeadlineAsc t \<noteq> None"
    using v by (simp only: list_all_iff)
  note inst = filteredAndSortedTasks_view [OF c h, where toLowerCase = sample_lower
      and getTime = sample_getTime and searchQuery = "[]" and filter' = FilterAll and sortBy = DeadlineAsc]
  note a = inst [THEN conjunct2, THEN conjunct2, THEN conjunct2, THEN conjunct1]
  from a b have frame: "heap_after insertion_sort sample_lower sample_getTime [?ts] 0 [] FilterAll DeadlineAsc ! 0 = ?ts"
    by (rule trans)
  note ordered = inst [THEN conjunct2, THEN conjunct2, THEN conjunct2, THEN conjunct2, THEN mp, OF v',
      THEN conjunct2]
  from c h frame v ordered show ?thesis
    by (intro conjI)
qed

text \<open>
  The claim as it stands fails for a list with an invalid date: the comparator is not
  consistent on it and the order is left to the engine. V8's algorithm meets the
  contract, and on \<open>sample_tasks\<close>, sorted by deadline, it puts the seventh task in
  front of the fifth, which has the same deadline.
\<close>

theorem filteredAndSortedTasks_invalid_date_counterexample:
  "sort_conforms (timsort_short :: (Task \<Rightarrow> Task \<Rightarrow> int option) \<Rightarrow> Task list \<Rightarrow> Task list) \<and>
   map task_id (derived_view timsort_short sample_lower sample_dates [sample_tasks] 0 [] FilterAll DeadlineAsc)
     = [''t0'', ''t1'', ''t5'', ''t6'', ''t2'', ''t3'', ''t4''] \<and>
   map task_id (filter (\<lambda>t. sort_key sample_dates DeadlineAsc t = Some 5)
      (derived_view timsort_short sample_lower sample_dates [sample_tasks] 0 [] FilterAll DeadlineAsc))
     = [''t6'', ''t4''] \<and>
   map task_id (filter (\<lambda>t. sort_key sample_dates DeadlineAsc t = Some 5) sample_tasks)
     = [''t4'', ''t6'']"
proof -
  have conforms: "sort_conforms (timsort_short :: (Task \<Rightarrow> Task \<Rightarrow> int option) \<Rightarrow> Task list \<Rightarrow> Task list)"
    by (rule sort_conforms_timsort_short)
  have run: "map task_id (derived_view timsort_short sample_lower sample_dates [sample_tasks] 0 [] FilterAll DeadlineAsc)
     = [''t0'', ''t1'', ''t5'', ''t6'', ''t2'', ''t3'', ''t4''] \<and>
   map task_id (filter (\<lambda>t. sort_key sample_dates DeadlineAsc t = Some 5)
      (derived_view timsort_short sample_lower sample_dates [sample_tasks] 0 [] FilterAll DeadlineAsc))
     = [''t6'', ''t4''] \<and>
   map task_id (filter (\<lambda>t. sort_key sample_dates DeadlineAsc t = Some 5) sample_tasks)
     = [''t4'', ''t6'']"
    by code_simp
  from conforms run show ?thesis
    by (rule conjI)
qed

section \<open>The deadline evaluator\<close>

lemma set_getNotifications:
  "sort_conforms arraySort \<Longrightarrow>
   set (getNotifications arraySort getTime st u) = {m \<in> set (storedNotifications st). notif_userId m = u}"
  by (cases "notifications_db st")
     (auto simp: getNotifications_def storedNotifications_def sort_conforms_set Let_def)

lemma checkDeadlines_task_skip:
  "\<not> needs_notification getTime now notifications t \<Longrightarrow>
   checkDeadlines_task getTime randomUUID toISOString user notifications now t s = s"
  by (auto simp: needs_notification_def checkDeadlines_task_def Let_def split: option.splits)

lemma checkDeadlines_task_new:
  assumes "needs_notification getTime now notifications t"
  shows "\<exists>n. notif_userId n = user_id user \<and> taskId n = task_id t \<and>
             map_option fst (classify getTime now t) = Some (type n) \<and>
             checkDeadlines_task getTime randomUUID toISOString user notifications now t s
               = s\<lparr>es_store := addNotification (es_store s) n, hasNewNotification := True,
                    created := created s @ [n]\<rparr>"
proof -
  from assms obtain k msg where c: "classify getTime now t = Some (k, msg)"
    and fresh: "\<not> list_ex (\<lambda>n. taskId n = task_id t \<and> type n = k) notifications"
    by (auto simp: needs_notification_def split: option.splits)
  let ?n = "\<lparr>notif_id = randomUUID (length (created s)), notif_userId = user_id user,
             taskId = task_id t, message = msg, type = k, isRead = False,
             notif_createdAt = toISOString (length (created s)), emailSent = True\<rparr>"
  have "checkDeadlines_task getTime randomUUID toISOString user notifications now t s
        = s\<lparr>es_store := addNotification (es_store s) ?n, hasNewNotification := True,
             created := created s @ [?n]\<rparr>"
    using c fresh by (simp add: checkDeadlines_task_def Let_def)
  moreover have "notif_userId ?n = user_id user \<and> taskId ?n = task_id t \<and>
      map_option fst (classify getTime now t) = Some (type ?n)"
    using c by simp
  ultimately show ?thesis by blast
qed

lemma checkDeadlines_loop_skip:
  "\<forall>t \<in> set tasks. \<not> needs_notification getTime now notifications t \<Longrightarrow>
   checkDeadlines_loop getTime randomUUID toISOString user notifications now tasks s = s"
  by (induction tasks arbitrary: s) (simp_all add: checkDeadlines_task_skip)

lemma checkDeadlines_task_flag:
  "hasNewNotification (checkDeadlines_task getTime randomUUID toISOString user notifications now t s)
     = (hasNewNotification s \<or> needs_notification getTime now notifications t)"
proof (cases "needs_notification getTime now notifications t")
  case True
  from checkDeadlines_task_new [OF True, of user randomUUID toISOString s] True
  show ?thesis by auto
next
  case False
  then show ?thesis by (simp add: checkDeadlines_task_skip)
qed

lemma checkDeadlines_loop_flag:
  "hasNewNotification (checkDeadlines_loop getTime randomUUID toISOString user notifications now tasks s)
     = (hasNewNotification s \<or> (\<exists>t \<in> set tasks. needs_notification getTime now notifications t))"
  by (induction tasks arbitrary: s) (auto simp: checkDeadlines_task_flag)

lemma checkDeadlines_task_store:
  "set (storedNotifications (es_store s))
     \<subseteq> set (storedNotifications
           (es_store (checkDeadlines_task getTime randomUUID toISOString user notifications now t s))) \<and>
   (notifications_db (es_store (checkDeadlines_task getTime randomUUID toISOString user notifications now t s))
      = Unparsable \<longleftrightarrow> notifications_db (es_store s) = Unparsable)"
proof (cases "needs_notification getTime now notifications t")
  case True
  from checkDeadlines_task_new [OF True, of user randomUUID toISOString s]
  show ?thesis
    by (auto simp: storedNotifications_addNotification addNotification_parsable)
next
  case False
  then show ?thesis by (simp add: checkDeadlines_task_skip)
qed

lemma checkDeadlines_loop_store:
  "set (storedNotifications (es_store s))
     \<subseteq> set (storedNotifications
           (es_store (checkDeadlines_loop getTime randomUUID toISOString user notifications now tasks s))) \<and>
   (notifications_db (es_store (checkDeadlines_loop getTime randomUUID toISOString user notifications now tasks s))
      = Unparsable \<longleftrightarrow> notifications_db (es_store s) = Unparsable)"
proof (induction tasks arbitrary: s)
  case Nil
  show ?case by simp
next
  case (Cons t tasks)
  let ?s' = "checkDeadlines_task getTime randomUUID toISOString user notifications now t s"
  from Cons.IH [of ?s'] checkDeadlines_task_store [of s getTime randomUUID toISOString user notifications now t]
  show ?case by auto
qed

lemma checkDeadlines_task_stored:
  assumes "notifications_db (es_store s) \<noteq> Unparsable"
    and "needs_notification getTime now notifications t"
  shows "\<exists>m \<in> set (storedNotifications
            (es_store (checkDeadlines_task getTime randomUUID toISOString user notifications now t s))).
           notif_userId m = user_id user \<and> taskId m = task_id t \<and>
           map_option fst (classify getTime now t) = Some (type m)"
proof -
  from checkDeadlines_task_new [OF assms(2), of user randomUUID toISOString s]
  obtain n where n: "notif_userId n = user_id user" "taskId n = task_id t"
      "map_option fst (classify getTime now t) = Some (type n)"
    and step: "checkDeadlines_task getTime randomUUID toISOString user notifications now t s
               = s\<lparr>es_store := addNotification (es_store s) n, hasNewNotification := True,
                    created := created s @ [n]\<rparr>"
    by blast
  from assms(1) have "triple n \<in> set (map triple (storedNotifications (addNotification (es_store s) n)))"
    by (rule addNotification_present)
  then obtain m where "m \<in> set (storedNotifications (addNotification (es_store s) n))"
    and "triple m = triple n"
    by auto
  with n step show ?thesis
    by (auto simp: triple_def)
qed

lemma checkDeadlines_loop_stored:
  assumes "notifications_db (es_store s) \<noteq> Unparsable"
    and "t \<in> set tasks"
    and "needs_notification getTime now notifications t"
  shows "\<exists>m \<in> set (storedNotifications
            (es_store (checkDeadlines_loop getTime randomUUID toISOString user notifications now tasks s))).
           notif_userId m = user_id user \<and> taskId m = task_id t \<and>
           map_option fst (classify getTime now t) = Some (type m)"
  using assms
proof (induction tasks arbitrary: s)
  case Nil
  then show ?case by simp
next
  case (Cons a tasks)
  let ?s' = "checkDeadlines_task getTime randomUUID toISOString user notifications now a s"
  from Cons.prems(1) have parsable': "notifications_db (es_store ?s') \<noteq> Unparsable"
    by (simp add: checkDeadlines_task_store)
  show ?case
  proof (cases "t \<in> set tasks")
    case True
    from Cons.IH [OF parsable' True Cons.prems(3)] show ?thesis by simp
  next
    case False
    with Cons.prems(2) have "t = a" by simp
    with checkDeadlines_task_stored [OF Cons.prems(1) Cons.prems(3), of randomUUID toISOString user]
    obtain m where m: "m \<in> set (storedNotifications (es_store ?s'))"
      "notif_userId m = user_id user" "taskId m = task_id t"
      "map_option fst (classify getTime now t) = Some (type m)"
      by auto
    from checkDeadlines_loop_store [of ?s' getTime randomUUID toISOString user notifications now tasks] m(1)
    have "m \<in> set (storedNotifications
            (es_store (checkDeadlines_loop getTime randomUUID toISOString user notifications now tasks ?s')))"
      by auto
    with m show ?thesis by auto
  qed
qed

lemma checkDeadlines_run:
  "fst (checkDeadlines arraySort getTime randomUUID toISOString (Some u) tasks notifications now st)
     = checkDeadlines_loop getTime randomUUID toISOString u notifications now tasks (fresh_run st)"
  "snd (checkDeadlines arraySort getTime randomUUID toISOString (Some u) tasks notifications now st)
     = (if hasNewNotification
            (checkDeadlines_loop getTime randomUUID toISOString u notifications now tasks (fresh_run st))
        then getNotifications arraySort getTime
               (es_store (checkDeadlines_loop getTime randomUUID toISOString u notifications now tasks
                  (fresh_run st))) (user_id u)
        else notifications)"
  by (simp_all add: checkDeadlines_def fresh_run_def Let_def)

lemma reloaded_list_complete:
  assumes conf: "sort_conforms arraySort"
    and parsable: "notifications_db st \<noteq> Unparsable"
    and backed: "backed_by_store (user_id u) st notifications"
    and t: "t \<in> set tasks"
  shows "\<not> needs_notification getTime now
            (getNotifications arraySort getTime
               (es_store (checkDeadlines_loop getTime randomUUID toISOString u notifications now tasks
                  (fresh_run st))) (user_id u)) t"
proof (cases "classify getTime now t")
  case None
  then show ?thesis by (simp add: needs_notification_def)
next
  case (Some p)
  obtain k msg where p: "p = (k, msg)" by (cases p)
  let ?s1 = "checkDeadlines_loop getTime randomUUID toISOString u notifications now tasks (fresh_run st)"
  have start: "es_store (fresh_run st) = st"
    by (simp add: fresh_run_def)
  have "\<exists>m \<in> set (storedNotifications (es_store ?s1)).
          notif_userId m = user_id u \<and> taskId m = task_id t \<and> type m = k"
  proof (cases "needs_notification getTime now notifications t")
    case True
    from parsable have "notifications_db (es_store (fresh_run st)) \<noteq> Unparsable"
      by (simp add: start)
    from checkDeadlines_loop_stored [OF this t True, of randomUUID toISOString u] Some p
    show ?thesis by auto
  next
    case False
    with Some p obtain n where n: "n \<in> set notifications" "taskId n = task_id t" "type n = k"
      by (auto simp: needs_notification_def list_ex_iff)
    with backed obtain m where m: "m \<in> set (storedNotifications st)"
      "notif_userId m = user_id u" "taskId m = taskId n" "type m = type n"
      by (auto simp: backed_by_store_def list_all_iff list_ex_iff)
    from checkDeadlines_loop_store [of "fresh_run st" getTime randomUUID toISOString u notifications now tasks]
      m(1)
    have "m \<in> set (storedNotifications (es_store ?s1))"
      by (auto simp: start)
    with m n show ?thesis by auto
  qed
  then obtain m where "m \<in> set (getNotifications arraySort getTime (es_store ?s1) (user_id u))"
    and "taskId m = task_id t" and "type m = k"
    by (auto simp: set_getNotifications [OF conf])
  with Some p show ?thesis
    by (auto simp: needs_notification_def list_ex_iff)
qed

text \<open>
  Where the notifications item is missing, parses, or holds a value that is not an array,
  the evaluation is idempotent. Take an in-memory list of which every notification has a
  stored notification of the user for the same task and kind, as \<^verbatim>\<open>loadData\<close> and
  the reload after a run leave it. After one run of the evaluator, a second run with the
  same tasks and the same current time creates no notification: the flag
  \<^verbatim>\<open>hasNewNotification\<close> stays false and the store is the store the first run
  left. This holds when the in-memory list of the second run is reloaded from the store,
  and when it is the list that the first run itself left.
\<close>

lemma checkDeadlines_idempotent:
  assumes "sort_conforms arraySort"
    and "notifications_db st \<noteq> Unparsable"
    and "backed_by_store (user_id u) st notifications"
  shows
    "fst (checkDeadlines arraySort getTime randomUUID' toISOString' (Some u) tasks
            (getNotifications arraySort getTime
               (es_store (fst (checkDeadlines arraySort getTime randomUUID toISOString (Some u) tasks notifications now st)))
               (user_id u))
            now
            (es_store (fst (checkDeadlines arraySort getTime randomUUID toISOString (Some u) tasks notifications now st))))
       = fresh_run (es_store (fst (checkDeadlines arraySort getTime randomUUID toISOString (Some u) tasks notifications now st))) \<and>
     fst (checkDeadlines arraySort getTime randomUUID' toISOString' (Some u) tasks
            (snd (checkDeadlines arraySort getTime randomUUID toISOString (Some u) tasks notifications now st))
            now
            (es_store (fst (checkDeadlines arraySort getTime randomUUID toISOString (Some u) tasks notifications now st))))
       = fresh_run (es_store (fst (checkDeadlines arraySort getTime randomUUID toISOString (Some u) tasks notifications now st)))"
proof -
  let ?s1 = "checkDeadlines_loop getTime randomUUID toISOString u notifications now tasks (fresh_run st)"
  let ?reloaded = "getNotifications arraySort getTime (es_store ?s1) (user_id u)"
  have reload: "checkDeadlines_loop getTime randomUUID' toISOString' u ?reloaded now tasks
                  (fresh_run (es_store ?s1)) = fresh_run (es_store ?s1)"
    using assms by (intro checkDeadlines_loop_skip ballI reloaded_list_complete)
  have own: "checkDeadlines_loop getTime randomUUID' toISOString' u
               (if hasNewNotification ?s1 then ?reloaded else notifications) now tasks
               (fresh_run (es_store ?s1)) = fresh_run (es_store ?s1)"
  proof (cases "hasNewNotification ?s1")
    case True
    with reload show ?thesis by simp
  next
    case False
    then have "\<forall>t \<in> set tasks. \<not> needs_notification getTime now notifications t"
      by (simp add: checkDeadlines_loop_flag)
    then have "checkDeadlines_loop getTime randomUUID' toISOString' u notifications now tasks
                 (fresh_run (es_store ?s1)) = fresh_run (es_store ?s1)"
      by (rule checkDeadlines_loop_skip)
    with False show ?thesis by simp
  qed
  from reload own show ?thesis
    by (simp only: checkDeadlines_run)
qed

lemma checkDeadlines_idempotent_example:
  "notifications_db (sample_notification_store Missing) \<noteq> Unparsable \<and>
   backed_by_store (user_id sample_user) (sample_notification_store Missing) [] \<and>
   created (fst (checkDeadlines insertion_sort sample_getTime (\<lambda>k. ''id1'') (\<lambda>k. ''now1'') (Some sample_user)
                   [sample_overdue] [] 5000 (sample_notification_store Missing)))
     \<noteq> [] \<and>
   created (fst (checkDeadlines insertion_sort sample_getTime (\<lambda>k. ''id2'') (\<lambda>k. ''now2'') (Some sample_user) [sample_overdue]
      (getNotifications insertion_sort sample_getTime
         (es_store (fst (checkDeadlines insertion_sort sample_getTime (\<lambda>k. ''id1'') (\<lambda>k. ''now1'') (Some sample_user)
                           [sample_overdue] [] 5000 (sample_notification_store Missing))))
         (user_id sample_user))
      5000
      (es_store (fst (checkDeadlines insertion_sort sample_getTime (\<lambda>k. ''id1'') (\<lambda>k. ''now1'') (Some sample_user)
                        [sample_overdue] [] 5000 (sample_notification_store Missing))))))
     = []"
proof -
  let ?st = "sample_notification_store Missing"
  let ?run1 = "checkDeadlines insertion_sort sample_getTime (\<lambda>k. ''id1'') (\<lambda>k. ''now1'') (Some sample_user)
                 [sample_overdue] [] 5000 ?st"
  have c: "sort_conforms (insertion_sort ::
      (Notification \<Rightarrow> Notification \<Rightarrow> int option) \<Rightarrow> Notification list \<Rightarrow> Notification list)"
    by (rule sort_conforms_insertion_sort)
  have h1: "notifications_db ?st \<noteq> Unparsable"
    by (simp add: sample_notification_store_def)
  have h2: "backed_by_store (user_id sample_user) ?st []"
    by (simp add: backed_by_store_def)
  have first: "created (fst ?run1) \<noteq> []"
    by (simp add: checkDeadlines_def checkDeadlines_task_def classify_cases sample_overdue_def
          sample_task_def sample_getTime_def Let_def)
  note a = checkDeadlines_idempotent [OF c h1 h2, where getTime = sample_getTime
      and randomUUID = "\<lambda>k. ''id1''" and toISOString = "\<lambda>k. ''now1''"
      and randomUUID' = "\<lambda>k. ''id2''" and toISOString' = "\<lambda>k. ''now2''"
      and tasks = "[sample_overdue]" and now = 5000, THEN conjunct1]
  have b: "created (fresh_run (es_store (fst ?run1))) = []"
    by (simp add: fresh_run_def)
  from a b have second: "created (fst (checkDeadlines insertion_sort sample_getTime (\<lambda>k. ''id2'') (\<lambda>k. ''now2'')
      (Some sample_user) [sample_overdue]
      (getNotifications insertion_sort sample_getTime (es_store (fst ?run1)) (user_id sample_user))
      5000 (es_store (fst ?run1)))) = []"
    by (simp only:)
  from h1 h2 first second show ?thesis
    by (intro conjI)
qed

text \<open>
  Claim C4. Two runs of the deadline evaluator in succession, with the same tasks and the
  same current time and with the in-memory notification list reloaded from the store
  after the first run, are to create no notification in the second run. The code misses
  this when the text under the notifications key is unparsable: \<^verbatim>\<open>addNotification\<close>
  stores nothing there (the defect shown for claim C3), the reloaded list is empty, and
  the second run creates the notification again, sets \<^verbatim>\<open>hasNewNotification\<close> and
  logs the mock email a second time. This holds for every sort function of the engine.
\<close>

theorem checkDeadlines_unparsable_item:
  "getNotifications arraySort sample_getTime (sample_notification_store Unparsable) (user_id sample_user) = [] \<and>
   es_store (fst (checkDeadlines arraySort sample_getTime (\<lambda>k. ''id1'') (\<lambda>k. ''now1'') (Some sample_user)
                    [sample_overdue] [] 5000 (sample_notification_store Unparsable)))
     = sample_notification_store Unparsable \<and>
   map type (created
     (fst (checkDeadlines arraySort sample_getTime (\<lambda>k. ''id1'') (\<lambda>k. ''now1'') (Some sample_user)
             [sample_overdue] [] 5000 (sample_notification_store Unparsable))))
     = [Overdue] \<and>
   hasNewNotification
     (fst (checkDeadlines arraySort sample_getTime (\<lambda>k. ''id2'') (\<lambda>k. ''now2'') (Some sample_user) [sample_overdue]
             (getNotifications arraySort sample_getTime (sample_notification_store Unparsable) (user_id sample_user))
             5000 (sample_notification_store Unparsable))) \<and>
   map type (created
     (fst (checkDeadlines arraySort sample_getTime (\<lambda>k. ''id2'') (\<lambda>k. ''now2'') (Some sample_user) [sample_overdue]
             (getNotifications arraySort sample_getTime (sample_notification_store Unparsable) (user_id sample_user))
             5000 (sample_notification_store Unparsable))))
     = [Overdue]"
  by (simp add: getNotifications_def checkDeadlines_def checkDeadlines_task_def classify_cases
        addNotification_def sample_notification_store_def sample_overdue_def sample_task_def
        sample_getTime_def Let_def)

end
